theory Spec2Isabelle
  imports
    Complex_Main
    "HOL-Library.Multiset"
    "HOL-Library.Char_ord"
    "HOL-Library.List_Lexorder"
    "HOL-Library.Sublist"
    "HOL-Library.Log_Nat"
begin

section \<open>Python values\<close>

text \<open>
  Tool-call arguments are JSON-like Python values. A dict is an association list in
  insertion order (the order \<open>items()\<close> and \<open>str\<close> follow); tuples only arise as
  results of canonicalization. Floats are not among the argument values of the model.
  Strings are lists of characters compared by code point, as Python compares them.
\<close>

datatype pyval =
    PNone
  | PBool bool
  | PInt int
  | PStr string
  | PList "pyval list"
  | PTuple "pyval list"
  | PDict "(pyval \<times> pyval) list"

datatype py_error = TypeError | AttributeError | ValueError | ZeroDivisionError | OverflowError

subsection \<open>Equality (\<open>==\<close>)\<close>

text \<open>
  \<open>bool\<close> is a subclass of \<open>int\<close>: \<open>True == 1\<close>. Sequences are equal when they have
  the same length and equal elements; a list never equals a tuple. Two dicts are equal
  when they have the same number of entries and every key of the first is a key of the
  second with an equal value.
\<close>

function (sequential) py_eq :: "pyval \<Rightarrow> pyval \<Rightarrow> bool"
  and py_eq_seq :: "pyval list \<Rightarrow> pyval list \<Rightarrow> bool"
  and py_dict_has :: "pyval \<Rightarrow> pyval \<Rightarrow> (pyval \<times> pyval) list \<Rightarrow> bool"
  and py_dict_sub :: "(pyval \<times> pyval) list \<Rightarrow> (pyval \<times> pyval) list \<Rightarrow> bool"
where
  "py_eq PNone PNone = True"
| "py_eq (PBool a) (PBool b) = (a = b)"
| "py_eq (PBool a) (PInt b) = ((if a then 1 else 0) = b)"
| "py_eq (PInt a) (PBool b) = (a = (if b then 1 else 0))"
| "py_eq (PInt a) (PInt b) = (a = b)"
| "py_eq (PStr a) (PStr b) = (a = b)"
| "py_eq (PList xs) (PList ys) = py_eq_seq xs ys"
| "py_eq (PTuple xs) (PTuple ys) = py_eq_seq xs ys"
| "py_eq (PDict a) (PDict b) = (length a = length b \<and> py_dict_sub a b)"
| "py_eq _ _ = False"
| "py_eq_seq [] [] = True"
| "py_eq_seq (x # xs) (y # ys) = (py_eq x y \<and> py_eq_seq xs ys)"
| "py_eq_seq _ _ = False"
| "py_dict_has k v [] = False"
| "py_dict_has k v ((k', v') # b) = (if py_eq k k' then py_eq v v' else py_dict_has k v b)"
| "py_dict_sub [] b = True"
| "py_dict_sub ((k, v) # a) b = (py_dict_has k v b \<and> py_dict_sub a b)"
  by pat_completeness auto

termination
  by (relation "measure (\<lambda>s. case s of
        Inl (Inl (x, y)) \<Rightarrow> size x + size y
      | Inl (Inr (xs, ys)) \<Rightarrow> size_list size xs + size_list size ys
      | Inr (Inl (k, v, b)) \<Rightarrow> size k + size v + size_list (size_prod size size) b
      | Inr (Inr (a, b)) \<Rightarrow> size_list (size_prod size size) a + size_list (size_prod size size) b)")
    auto

subsection \<open>Ordering (\<open><\<close>)\<close>

text \<open>
  Numbers compare by value, strings by code point, lists with lists and tuples with
  tuples lexicographically: the first pair of unequal elements decides, and only that
  pair is compared with \<open><\<close>. Every other combination raises \<open>TypeError\<close>, also
  \<open>None < None\<close> and a dict against a dict.
\<close>

fun py_lt :: "pyval \<Rightarrow> pyval \<Rightarrow> py_error + bool"
  and py_lt_seq :: "pyval list \<Rightarrow> pyval list \<Rightarrow> py_error + bool"
where
  "py_lt (PBool a) (PBool b) = Inr (a < b)"
| "py_lt (PBool a) (PInt b) = Inr ((if a then 1 else 0) < b)"
| "py_lt (PInt a) (PBool b) = Inr (a < (if b then 1 else 0))"
| "py_lt (PInt a) (PInt b) = Inr (a < b)"
| "py_lt (PStr a) (PStr b) = Inr (a < b)"
| "py_lt (PList xs) (PList ys) = py_lt_seq xs ys"
| "py_lt (PTuple xs) (PTuple ys) = py_lt_seq xs ys"
| "py_lt _ _ = Inl TypeError"
| "py_lt_seq [] [] = Inr False"
| "py_lt_seq [] (y # ys) = Inr True"
| "py_lt_seq (x # xs) [] = Inr False"
| "py_lt_seq (x # xs) (y # ys) = (if py_eq x y then py_lt_seq xs ys else py_lt x y)"


subsection \<open>\<open>sorted\<close>\<close>

text \<open>
  The builtin \<open>sorted\<close> returns a new list in ascending order, uses only \<open><\<close>, is
  stable, and lets the exception of a comparison escape. It is modelled by a stable
  insertion sort that stops at the first comparison that raises.
\<close>

fun py_insort :: "('a \<Rightarrow> 'a \<Rightarrow> py_error + bool) \<Rightarrow> 'a \<Rightarrow> 'a list \<Rightarrow> py_error + 'a list" where
  "py_insort lt x [] = Inr [x]"
| "py_insort lt x (y # ys) =
     (case lt y x of
        Inl e \<Rightarrow> Inl e
      | Inr b \<Rightarrow>
          if b then (case py_insort lt x ys of Inl e \<Rightarrow> Inl e | Inr zs \<Rightarrow> Inr (y # zs))
          else Inr (x # y # ys))"

fun py_sorted_by :: "('a \<Rightarrow> 'a \<Rightarrow> py_error + bool) \<Rightarrow> 'a list \<Rightarrow> py_error + 'a list" where
  "py_sorted_by lt [] = Inr []"
| "py_sorted_by lt (x # xs) =
     (case py_sorted_by lt xs of Inl e \<Rightarrow> Inl e | Inr ys \<Rightarrow> py_insort lt x ys)"

definition py_sorted :: "pyval list \<Rightarrow> py_error + pyval list" where
  "py_sorted = py_sorted_by py_lt"

text \<open>
  \<open>sorted(params.items())\<close> sorts the \<open>(key, value)\<close> pairs as tuples: the keys
  decide unless they are equal.
\<close>

definition item_lt :: "pyval \<times> pyval \<Rightarrow> pyval \<times> pyval \<Rightarrow> py_error + bool" where
  "item_lt a b = py_lt (PTuple [fst a, snd a]) (PTuple [fst b, snd b])"

definition sorted_items :: "(pyval \<times> pyval) list \<Rightarrow> py_error + (pyval \<times> pyval) list" where
  "sorted_items = py_sorted_by item_lt"

text \<open>
  A \<open>for\<close> loop that appends one result per element and is left by the first
  exception.
\<close>

fun for_each :: "('a \<Rightarrow> py_error + 'b) \<Rightarrow> 'a list \<Rightarrow> py_error + 'b list" where
  "for_each f [] = Inr []"
| "for_each f (x # xs) =
     (case f x of
        Inl e \<Rightarrow> Inl e
      | Inr y \<Rightarrow> (case for_each f xs of Inl e \<Rightarrow> Inl e | Inr ys \<Rightarrow> Inr (y # ys)))"

lemma for_each_cong [fundef_cong]:
  "xs = ys \<Longrightarrow> (\<And>x. x \<in> set ys \<Longrightarrow> f x = g x) \<Longrightarrow> for_each f xs = for_each g ys"
  by (induction ys arbitrary: xs) (auto split: sum.splits)

subsection \<open>\<open>str\<close> and \<open>repr\<close>\<close>

text \<open>
  \<open>str\<close> of a string is the string itself; of every other value it is its \<open>repr\<close>.
  Containers show the \<open>repr\<close> of their elements, a dict in insertion order. The
  \<open>repr\<close> of a string is given for ASCII text.
\<close>

definition digit_char :: "nat \<Rightarrow> char" where
  "digit_char d = char_of (48 + d)"

fun nat_str :: "nat \<Rightarrow> string" where
  "nat_str n = (if n < 10 then [digit_char n] else nat_str (n div 10) @ [digit_char (n mod 10)])"

declare nat_str.simps [simp del]

definition int_str :: "int \<Rightarrow> string" where
  "int_str i = (if i < 0 then CHR ''-'' # nat_str (nat (- i)) else nat_str (nat i))"

definition hex_char :: "nat \<Rightarrow> char" where
  "hex_char d = (if d < 10 then char_of (48 + d) else char_of (87 + d))"

definition escape_char :: "char \<Rightarrow> char \<Rightarrow> string" where
  "escape_char q c =
     (if c = q \<or> c = CHR 0x5C then [CHR 0x5C, c]
      else if c = CHR 0x0A then [CHR 0x5C, CHR ''n'']
      else if c = CHR 0x0D then [CHR 0x5C, CHR ''r'']
      else if c = CHR 0x09 then [CHR 0x5C, CHR ''t'']
      else if (of_char c :: nat) < 32 \<or> 127 \<le> (of_char c :: nat)
        then [CHR 0x5C, CHR ''x'', hex_char (of_char c div 16), hex_char (of_char c mod 16)]
      else [c])"

definition str_repr :: "string \<Rightarrow> string" where
  "str_repr s =
     (let q = (if CHR 0x27 \<in> set s \<and> CHR 0x22 \<notin> set s then CHR 0x22 else CHR 0x27)
      in q # concat (map (escape_char q) s) @ [q])"

function (sequential) py_repr :: "pyval \<Rightarrow> string"
  and py_repr_seq :: "pyval list \<Rightarrow> string"
  and py_repr_items :: "(pyval \<times> pyval) list \<Rightarrow> string"
where
  "py_repr PNone = ''None''"
| "py_repr (PBool b) = (if b then ''True'' else ''False'')"
| "py_repr (PInt i) = int_str i"
| "py_repr (PStr s) = str_repr s"
| "py_repr (PList xs) = ''['' @ py_repr_seq xs @ '']''"
| "py_repr (PTuple xs) = ''('' @ py_repr_seq xs @ (if length xs = 1 then '',)'' else '')'')"
| "py_repr (PDict kvs) = ''{'' @ py_repr_items kvs @ ''}''"
| "py_repr_seq [] = []"
| "py_repr_seq [x] = py_repr x"
| "py_repr_seq (x # xs) = py_repr x @ '', '' @ py_repr_seq xs"
| "py_repr_items [] = []"
| "py_repr_items [(k, v)] = py_repr k @ '': '' @ py_repr v"
| "py_repr_items ((k, v) # kvs) = py_repr k @ '': '' @ py_repr v @ '', '' @ py_repr_items kvs"
  by pat_completeness auto

termination
  by (relation "measure (\<lambda>s. case s of
        Inl x \<Rightarrow> size x
      | Inr (Inl xs) \<Rightarrow> size_list size xs
      | Inr (Inr kvs) \<Rightarrow> size_list (size_prod size size) kvs)")
    auto

fun py_str :: "pyval \<Rightarrow> string" where
  "py_str (PStr s) = s"
| "py_str v = py_repr v"

subsection \<open>Hashability\<close>

text \<open>
  Members of a set and keys of a dict must be hashable: lists and dicts are not, a
  tuple is when all its elements are.
\<close>

fun hashable :: "pyval \<Rightarrow> bool" where
  "hashable (PList xs) = False"
| "hashable (PDict kvs) = False"
| "hashable (PTuple xs) = (\<forall>x \<in> set xs. hashable x)"
| "hashable _ = True"

subsection \<open>JSON values\<close>

text \<open>
  The arguments of a tool call come from JSON: \<open>None\<close>, booleans, integers, strings,
  lists of JSON values, and dicts whose keys are pairwise distinct strings. No tuple
  occurs in them.
\<close>

fun is_str :: "pyval \<Rightarrow> bool" where
  "is_str (PStr s) = True"
| "is_str _ = False"

fun is_int :: "pyval \<Rightarrow> bool" where
  "is_int (PInt i) = True"
| "is_int _ = False"

fun json_value :: "pyval \<Rightarrow> bool" where
  "json_value (PList xs) = (\<forall>x \<in> set xs. json_value x)"
| "json_value (PDict kvs) =
     (distinct (map fst kvs) \<and> (\<forall>kv \<in> set kvs. is_str (fst kv) \<and> json_value (snd kv)))"
| "json_value (PTuple xs) = False"
| "json_value _ = True"

text \<open>
  Values all of whose dicts, at any depth, have pairwise distinct string keys; tuples
  are allowed.
\<close>

fun keyed :: "pyval \<Rightarrow> bool" where
  "keyed (PList xs) = (\<forall>x \<in> set xs. keyed x)"
| "keyed (PTuple xs) = (\<forall>x \<in> set xs. keyed x)"
| "keyed (PDict kvs) =
     (distinct (map fst kvs) \<and> (\<forall>kv \<in> set kvs. is_str (fst kv) \<and> keyed (snd kv)))"
| "keyed _ = True"

text \<open>
  The string of a string key, by which the entries of a JSON dict are sorted.
\<close>

fun str_of :: "pyval \<Rightarrow> string" where
  "str_of (PStr s) = s"
| "str_of _ = []"

fun int_of :: "pyval \<Rightarrow> int" where
  "int_of (PInt i) = i"
| "int_of _ = 0"

definition item_key :: "pyval \<times> pyval \<Rightarrow> string" where
  "item_key kv = str_of (fst kv)"

lemma mset_py_insort: "py_insort lt x ys = Inr zs \<Longrightarrow> mset zs = add_mset x (mset ys)"
  by (induction ys arbitrary: zs) (auto split: sum.splits if_splits)

lemma mset_py_sorted_by: "py_sorted_by lt xs = Inr ys \<Longrightarrow> mset ys = mset xs"
  by (induction xs arbitrary: ys) (auto split: sum.splits dest: mset_py_insort)

lemma set_py_sorted_by: "py_sorted_by lt xs = Inr ys \<Longrightarrow> set ys = set xs"
  by (metis mset_py_sorted_by set_mset_mset)

lemma size_item_value: "(k, v) \<in> set items \<Longrightarrow> size v < size_list (size_prod size size) items"
  by (induction items) auto

lemma size_list_member: "x \<in> set xs \<Longrightarrow> size x < Suc (size_list size xs)"
  by (induction xs) auto

section \<open>Canonicalization of argument mappings\<close>

subsection \<open>\<open>normalized_params\<close> of \<open>tcrr.py\<close>\<close>

text \<open>
  \<open>normalized_item\<close> is the body of the loop over the sorted entries and
  \<open>normalized_list_item\<close> the body of the loop over a list value. The \<open>try\<close> around a
  list value catches \<open>TypeError\<close> only, and then renders the elements of the list with
  \<open>str\<close> in their given order. A parameter that is no dict has no \<open>items\<close>:
  \<open>AttributeError\<close>.
\<close>

function (sequential) normalized_params :: "pyval \<Rightarrow> py_error + pyval"
  and normalized_item :: "pyval \<times> pyval \<Rightarrow> py_error + pyval"
  and normalized_list_item :: "pyval \<Rightarrow> py_error + pyval"
where
  "normalized_params (PDict params) =
     (case sorted_items params of
        Inl e \<Rightarrow> Inl e
      | Inr items \<Rightarrow>
          (case for_each normalized_item items of
             Inl e \<Rightarrow> Inl e
           | Inr normalized_items \<Rightarrow> Inr (PTuple normalized_items)))"
| "normalized_params _ = Inl AttributeError"
| "normalized_item (k, PDict d) =
     (case normalized_params (PDict d) of
        Inl e \<Rightarrow> Inl e
      | Inr n \<Rightarrow> Inr (PTuple [k, n]))"
| "normalized_item (k, PList v) =
     (case (case for_each normalized_list_item v of
              Inl e \<Rightarrow> Inl e
            | Inr normalized_list \<Rightarrow> py_sorted normalized_list) of
        Inr sorted_v \<Rightarrow> Inr (PTuple [k, PTuple sorted_v])
      | Inl TypeError \<Rightarrow> Inr (PTuple [k, PTuple (map (\<lambda>item. PStr (py_str item)) v)])
      | Inl e \<Rightarrow> Inl e)"
| "normalized_item (k, v) = Inr (PTuple [k, v])"
| "normalized_list_item (PDict d) = normalized_params (PDict d)"
| "normalized_list_item (PList item) = Inr (PTuple (map (\<lambda>subitem. PStr (py_str subitem)) item))"
| "normalized_list_item item = Inr item"
  by pat_completeness auto

termination
proof (relation "measure (\<lambda>s. case s of
        Inl p \<Rightarrow> 2 * size p
      | Inr (Inl (k, v)) \<Rightarrow> 2 * size v + 1
      | Inr (Inr item) \<Rightarrow> 2 * size item + 1)", goal_cases)
  case 1
  show ?case by simp
next
  case (2 params items x)
  then have "x \<in> set params"
    by (simp add: sorted_items_def set_py_sorted_by)
  then have "size (snd x) < size_list (size_prod size size) params"
    using size_item_value [of "fst x" "snd x" params] by simp
  then show ?case by (cases x) simp
next
  case (3 k d)
  show ?case by simp
next
  case (4 k v x)
  then show ?case using size_list_member [of x v] by simp
next
  case (5 d)
  show ?case by simp
qed

subsection \<open>\<open>normalized_params\<close> of \<open>agent_metrics.py\<close>\<close>

text \<open>
  This variant renders a parameter that is no dict with \<open>str\<close>, and sorts a list value
  as it is, without normalizing its elements.
\<close>

function (sequential) normalized_params_am :: "pyval \<Rightarrow> py_error + pyval"
  and normalized_item_am :: "pyval \<times> pyval \<Rightarrow> py_error + pyval"
where
  "normalized_params_am (PDict params) =
     (case sorted_items params of
        Inl e \<Rightarrow> Inl e
      | Inr items \<Rightarrow>
          (case for_each normalized_item_am items of
             Inl e \<Rightarrow> Inl e
           | Inr normalized_items \<Rightarrow> Inr (PTuple normalized_items)))"
| "normalized_params_am params = Inr (PStr (py_str params))"
| "normalized_item_am (k, PDict d) =
     (case normalized_params_am (PDict d) of
        Inl e \<Rightarrow> Inl e
      | Inr n \<Rightarrow> Inr (PTuple [k, n]))"
| "normalized_item_am (k, PList v) =
     (case py_sorted v of
        Inr sorted_v \<Rightarrow> Inr (PTuple [k, PTuple sorted_v])
      | Inl TypeError \<Rightarrow> Inr (PTuple [k, PTuple (map (\<lambda>item. PStr (py_str item)) v)])
      | Inl e \<Rightarrow> Inl e)"
| "normalized_item_am (k, v) = Inr (PTuple [k, v])"
  by pat_completeness auto

termination
proof (relation "measure (\<lambda>s. case s of
        Inl p \<Rightarrow> 2 * size p
      | Inr (k, v) \<Rightarrow> 2 * size v + 1)", goal_cases)
  case 1
  show ?case by simp
next
  case (2 params items x)
  then have "x \<in> set params"
    by (simp add: sorted_items_def set_py_sorted_by)
  then have "size (snd x) < size_list (size_prod size size) params"
    using size_item_value [of "fst x" "snd x" params] by simp
  then show ?case by (cases x) simp
next
  case (3 k d)
  show ?case by simp
qed

subsection \<open>Reorderings of an argument mapping\<close>

text \<open>
  \<open>reordered a b\<close>: \<open>b\<close> is \<open>a\<close> with the entries of the mapping permuted, or with the
  entries of a mapping nested in it as a mapping value permuted, or with a list that is
  a value of such a mapping reordered, where the list consists of integers only or of
  strings only; any number of such steps. A list nested in a list is not reordered.
\<close>

definition uniform_scalars :: "pyval list \<Rightarrow> bool" where
  "uniform_scalars l = ((\<forall>x \<in> set l. is_int x) \<or> (\<forall>x \<in> set l. is_str x))"

inductive reordered :: "pyval \<Rightarrow> pyval \<Rightarrow> bool" where
  same: "reordered a a"
| keys: "mset items' = mset items \<Longrightarrow> reordered (PDict items) (PDict items')"
| nested: "reordered v v' \<Longrightarrow>
     reordered (PDict (xs @ (k, v) # ys)) (PDict (xs @ (k, v') # ys))"
| list_value: "mset l' = mset l \<Longrightarrow> uniform_scalars l \<Longrightarrow>
     reordered (PDict (xs @ (k, PList l) # ys)) (PDict (xs @ (k, PList l') # ys))"
| chain: "reordered a b \<Longrightarrow> reordered b c \<Longrightarrow> reordered a c"

section \<open>Transcripts\<close>

text \<open>
  Modelled from the spec: the message classes of \<open>tau2.data_model.message\<close>, which
  the metrics import; of a message the metrics read the following. An assistant or user
  message may carry tool calls (the attribute may be \<open>None\<close>), a turn index and a cost.
  A tool message carries the id of the call it answers, an error flag and a content. A
  multi-tool message bundles tool results; it is no instance of \<open>ToolMessage\<close> and has
  no \<open>tool_calls\<close>.
\<close>

datatype ToolCall = ToolCall (tc_id: string) (tc_name: string) (arguments: pyval)

datatype Message =
    SystemMessage
  | AssistantMessage "ToolCall list option" "int option" "rat option"
  | UserMessage "ToolCall list option" "int option" "rat option"
  | ToolMessage string bool "string option"
  | MultiToolMessage "(string \<times> bool \<times> string option) list"

text \<open>
  \<open>msg_tool_calls\<close> is the list the loop \<open>for tool_call in msg.tool_calls\<close> runs over
  under the guard \<open>hasattr(msg, "tool_calls") and msg.tool_calls\<close>: empty when the
  attribute is missing, \<open>None\<close> or empty.
\<close>

fun is_assistant :: "Message \<Rightarrow> bool" where
  "is_assistant (AssistantMessage tcs t c) = True"
| "is_assistant _ = False"

fun msg_tool_calls :: "Message \<Rightarrow> ToolCall list" where
  "msg_tool_calls (AssistantMessage tcs t c) = (case tcs of None \<Rightarrow> [] | Some l \<Rightarrow> l)"
| "msg_tool_calls (UserMessage tcs t c) = (case tcs of None \<Rightarrow> [] | Some l \<Rightarrow> l)"
| "msg_tool_calls _ = []"

fun msg_turn_idx :: "Message \<Rightarrow> int option" where
  "msg_turn_idx (AssistantMessage tcs t c) = t"
| "msg_turn_idx (UserMessage tcs t c) = t"
| "msg_turn_idx _ = None"

fun msg_cost :: "Message \<Rightarrow> rat option" where
  "msg_cost (AssistantMessage tcs t c) = c"
| "msg_cost (UserMessage tcs t c) = c"
| "msg_cost _ = None"

section \<open>Extraction of tool calls (\<open>tcrr.py\<close>)\<close>

record ToolResult =
  success :: bool
  error :: bool
  content :: "string option"

record ToolCallInfo =
  name :: string
  params :: pyval
  turn_idx :: int
  assistant_turn_idx :: int
  call_id :: string
  correct :: bool
  params_valid :: bool

text \<open>
  The first loop fills \<open>tool_results\<close>, keyed by the id of the tool message; a later
  message with the same id overwrites an earlier one.
\<close>

fun record_tool_result :: "Message \<Rightarrow> (string \<rightharpoonup> ToolResult) \<Rightarrow> (string \<rightharpoonup> ToolResult)" where
  "record_tool_result (ToolMessage i e c) tool_results =
     tool_results(i \<mapsto> \<lparr>success = \<not> e, error = e, content = c\<rparr>)"
| "record_tool_result _ tool_results = tool_results"

fun collect_tool_results :: "Message list \<Rightarrow> (string \<rightharpoonup> ToolResult) \<Rightarrow> (string \<rightharpoonup> ToolResult)" where
  "collect_tool_results [] tool_results = tool_results"
| "collect_tool_results (msg # messages) tool_results =
     collect_tool_results messages (record_tool_result msg tool_results)"

text \<open>
  \<open>str.lower\<close> on ASCII text, and the substring test \<open>keyword in error_content\<close>.
\<close>

definition lower_char :: "char \<Rightarrow> char" where
  "lower_char c =
     (if (65::nat) \<le> of_char c \<and> (of_char c :: nat) \<le> 90 then char_of (of_char c + (32::nat)) else c)"

definition lower :: "string \<Rightarrow> string" where
  "lower s = map lower_char s"

fun contains :: "string \<Rightarrow> string \<Rightarrow> bool" where
  "contains keyword [] = (keyword = [])"
| "contains keyword (c # cs) = (prefix keyword (c # cs) \<or> contains keyword cs)"

definition param_error_keywords :: "string list" where
  "param_error_keywords =
     [''invalid parameter'', ''missing parameter'', ''parameter error'',
      ''bad parameter'', ''invalid argument'', ''missing argument'']"

definition call_correct :: "(string \<rightharpoonup> ToolResult) \<Rightarrow> ToolCall \<Rightarrow> bool" where
  "call_correct tool_results tool_call =
     (case tool_results (tc_id tool_call) of
        None \<Rightarrow> True
      | Some result \<Rightarrow> success result)"

definition call_params_valid :: "(string \<rightharpoonup> ToolResult) \<Rightarrow> ToolCall \<Rightarrow> bool" where
  "call_params_valid tool_results tool_call =
     (case tool_results (tc_id tool_call) of
        None \<Rightarrow> True
      | Some result \<Rightarrow>
          (case content result of
             None \<Rightarrow> True
           | Some text \<Rightarrow>
               if error result \<and> text \<noteq> []
                  \<and> (\<exists>keyword \<in> set param_error_keywords. contains keyword (lower text))
               then False else True))"

definition tool_call_info :: "(string \<rightharpoonup> ToolResult) \<Rightarrow> Message \<Rightarrow> int \<Rightarrow> ToolCall \<Rightarrow> ToolCallInfo" where
  "tool_call_info tool_results msg assistant_turn_count tool_call =
     \<lparr>name = tc_name tool_call,
      params = arguments tool_call,
      turn_idx = (case msg_turn_idx msg of None \<Rightarrow> 0 | Some t \<Rightarrow> t),
      assistant_turn_idx = assistant_turn_count,
      call_id = tc_id tool_call,
      correct = call_correct tool_results tool_call,
      params_valid = call_params_valid tool_results tool_call\<rparr>"

text \<open>
  The second loop carries \<open>assistant_turn_count\<close> and the list of extracted calls; the
  counter is incremented before the calls of an assistant message are stamped.
\<close>

fun scan_messages ::
  "(string \<rightharpoonup> ToolResult) \<Rightarrow> Message list \<Rightarrow> int \<Rightarrow> ToolCallInfo list \<Rightarrow> ToolCallInfo list" where
  "scan_messages tool_results [] assistant_turn_count tool_calls = tool_calls"
| "scan_messages tool_results (msg # messages) assistant_turn_count tool_calls =
     (let assistant_turn_count =
            (if is_assistant msg then assistant_turn_count + 1 else assistant_turn_count)
      in scan_messages tool_results messages assistant_turn_count
           (tool_calls @ map (tool_call_info tool_results msg assistant_turn_count) (msg_tool_calls msg)))"

definition extract_tool_calls_with_turns :: "Message list \<Rightarrow> ToolCallInfo list" where
  "extract_tool_calls_with_turns messages =
     scan_messages (collect_tool_results messages Map.empty) messages 0 []"


subsection \<open>What the extractor is measured against\<close>

text \<open>
  The number of assistant messages among the first \<open>i + 1\<close> messages of a transcript.
\<close>

definition assistant_turns_upto :: "Message list \<Rightarrow> nat \<Rightarrow> int" where
  "assistant_turns_upto msgs i = int (length (filter is_assistant (take (Suc i) msgs)))"

text \<open>
  The result correlated with a call id: error flag and content of the last tool message
  of the transcript that carries this id, if there is one. (The extractors look at the
  tool messages of the transcript itself, not into a multi-tool bundle.)
\<close>

fun correlated_result :: "Message list \<Rightarrow> string \<Rightarrow> (bool \<times> string option) option" where
  "correlated_result [] cid = None"
| "correlated_result (msg # msgs) cid =
     (case correlated_result msgs cid of
        Some r \<Rightarrow> Some r
      | None \<Rightarrow>
          (case msg of
             ToolMessage i e c \<Rightarrow> if i = cid then Some (e, c) else None
           | _ \<Rightarrow> None))"

text \<open>
  A correlated result reports a parameter error when it is an error whose content, in
  lower case, has one of the six keywords as a substring.
\<close>

definition reports_param_error :: "(bool \<times> string option) option \<Rightarrow> bool" where
  "reports_param_error r =
     (\<exists>text. r = Some (True, Some text)
        \<and> (\<exists>keyword \<in> set param_error_keywords. sublist keyword (lower text)))"

section \<open>Redundancy of tool calls (\<open>compute_tcrr_windowed\<close>)\<close>

record TCRRResult =
  total_calls :: int
  redundant_calls :: int
  redundancy_ratio :: rat
  redundant_by_turn :: "(int \<times> int) list"
  window_size :: int
  window_redundant_calls :: int
  batch_redundant_calls :: int

text \<open>
  A Python set of identities, kept as the list of its members. Membership hashes the
  value first, and so raises \<open>TypeError\<close> on an unhashable one; members are found by
  \<open>==\<close>.
\<close>

definition set_contains :: "pyval list \<Rightarrow> pyval \<Rightarrow> py_error + bool" where
  "set_contains s x = (if hashable x then Inr (list_ex (py_eq x) s) else Inl TypeError)"

definition set_add :: "pyval list \<Rightarrow> pyval \<Rightarrow> py_error + pyval list" where
  "set_add s x =
     (case set_contains s x of
        Inl e \<Rightarrow> Inl e
      | Inr present \<Rightarrow> Inr (if present then s else s @ [x]))"

text \<open>
  The identity of a call is \<open>(name, normalized_params(params))\<close>; the handlers of
  \<open>except Exception\<close> use \<open>(name, str(params))\<close> instead.
\<close>

definition normalized_identity :: "ToolCallInfo \<Rightarrow> py_error + pyval" where
  "normalized_identity call =
     (case normalized_params (params call) of
        Inl e \<Rightarrow> Inl e
      | Inr params_norm \<Rightarrow> Inr (PTuple [PStr (name call), params_norm]))"

definition str_identity :: "ToolCallInfo \<Rightarrow> pyval" where
  "str_identity call = PTuple [PStr (name call), PStr (py_str (params call))]"

text \<open>
  \<open>calls_by_turn\<close> is a dict from the assistant-turn index to the calls of that turn,
  in the order of the input.
\<close>

fun group_call :: "ToolCallInfo \<Rightarrow> (int \<times> ToolCallInfo list) list \<Rightarrow> (int \<times> ToolCallInfo list) list" where
  "group_call call [] = [(assistant_turn_idx call, [call])]"
| "group_call call ((turn, calls) # rest) =
     (if turn = assistant_turn_idx call then (turn, calls @ [call]) # rest
      else (turn, calls) # group_call call rest)"

fun group_by_turn :: "ToolCallInfo list \<Rightarrow> (int \<times> ToolCallInfo list) list \<Rightarrow> (int \<times> ToolCallInfo list) list" where
  "group_by_turn [] calls_by_turn = calls_by_turn"
| "group_by_turn (call # tool_calls) calls_by_turn =
     group_by_turn tool_calls (group_call call calls_by_turn)"

definition calls_of_turn :: "(int \<times> ToolCallInfo list) list \<Rightarrow> int \<Rightarrow> ToolCallInfo list" where
  "calls_of_turn calls_by_turn turn =
     (case map_of calls_by_turn turn of None \<Rightarrow> [] | Some calls \<Rightarrow> calls)"

text \<open>
  The loop over \<open>previous_calls\<close>: the \<open>try\<close> block normalizes and adds the identity;
  on any exception the handler adds the string identity.
\<close>

fun previous_identities_of :: "ToolCallInfo list \<Rightarrow> pyval list \<Rightarrow> py_error + pyval list" where
  "previous_identities_of [] previous_identities = Inr previous_identities"
| "previous_identities_of (prev_call # previous_calls) previous_identities =
     (case (case normalized_identity prev_call of
              Inl e \<Rightarrow> Inl e
            | Inr identity \<Rightarrow> set_add previous_identities identity) of
        Inr added \<Rightarrow> previous_identities_of previous_calls added
      | Inl e \<Rightarrow>
          (case set_add previous_identities (str_identity prev_call) of
             Inl e' \<Rightarrow> Inl e'
           | Inr added \<Rightarrow> previous_identities_of previous_calls added))"

text \<open>
  The loop over \<open>current_calls\<close> that counts the window-redundant calls of the turn:
  the membership test is inside the \<open>try\<close>, and the handler tests the string identity.
\<close>

fun window_redundant_in :: "pyval list \<Rightarrow> ToolCallInfo list \<Rightarrow> py_error + int" where
  "window_redundant_in previous_identities [] = Inr 0"
| "window_redundant_in previous_identities (call # current_calls) =
     (case (case (case normalized_identity call of
                    Inl e \<Rightarrow> Inl e
                  | Inr identity \<Rightarrow> set_contains previous_identities identity) of
              Inr found \<Rightarrow> Inr found
            | Inl e \<Rightarrow> set_contains previous_identities (str_identity call)) of
        Inl e \<Rightarrow> Inl e
      | Inr found \<Rightarrow>
          (case window_redundant_in previous_identities current_calls of
             Inl e \<Rightarrow> Inl e
           | Inr n \<Rightarrow> Inr ((if found then 1 else 0) + n)))"

text \<open>
  The batch loop: only the normalization is inside the \<open>try\<close>; the lookup in
  \<open>call_identities\<close> is outside, so an unhashable identity raises \<open>TypeError\<close> to the
  caller.
\<close>

definition batch_identity :: "ToolCallInfo \<Rightarrow> pyval" where
  "batch_identity call =
     (case normalized_identity call of
        Inr identity \<Rightarrow> identity
      | Inl e \<Rightarrow> str_identity call)"

text \<open>
  The identity the two window loops end up with: the normalized identity when the
  normalization returns a hashable value, the string identity otherwise.
\<close>

definition window_identity :: "ToolCallInfo \<Rightarrow> pyval" where
  "window_identity call =
     (case normalized_identity call of
        Inr identity \<Rightarrow> if hashable identity then identity else str_identity call
      | Inl e \<Rightarrow> str_identity call)"

fun count_identity :: "pyval \<Rightarrow> (pyval \<times> int) list \<Rightarrow> (pyval \<times> int) list" where
  "count_identity identity [] = [(identity, 1)]"
| "count_identity identity ((k, n) # rest) =
     (if py_eq identity k then (k, n + 1) # rest else (k, n) # count_identity identity rest)"

fun call_identities_of :: "ToolCallInfo list \<Rightarrow> (pyval \<times> int) list \<Rightarrow> py_error + (pyval \<times> int) list" where
  "call_identities_of [] call_identities = Inr call_identities"
| "call_identities_of (call # current_calls) call_identities =
     (if hashable (batch_identity call)
      then call_identities_of current_calls (count_identity (batch_identity call) call_identities)
      else Inl TypeError)"

definition excess_calls :: "int \<Rightarrow> (pyval \<times> int) list \<Rightarrow> int" where
  "excess_calls batch_threshold call_identities =
     (\<Sum>(identity, count) \<leftarrow> call_identities.
        if count > batch_threshold then count - batch_threshold else 0)"

text \<open>
  One iteration of the loop over \<open>sorted_turns\<close>: the number of window-redundant calls
  of the turn and the number of its batch-redundant calls. \<open>range(window_start,
  current_turn)\<close> is the integer interval up to \<open>current_turn - 1\<close>.
\<close>

definition turn_redundancy ::
  "(int \<times> ToolCallInfo list) list \<Rightarrow> int \<Rightarrow> int \<Rightarrow> int \<Rightarrow> py_error + int \<times> int" where
  "turn_redundancy calls_by_turn window batch_threshold current_turn =
     (let current_calls = calls_of_turn calls_by_turn current_turn;
          window_start = max 1 (current_turn - window);
          previous_calls = concat (map (calls_of_turn calls_by_turn) [window_start..current_turn - 1])
      in case previous_identities_of previous_calls [] of
           Inl e \<Rightarrow> Inl e
         | Inr previous_identities \<Rightarrow>
             (case window_redundant_in previous_identities current_calls of
                Inl e \<Rightarrow> Inl e
              | Inr window_redundant \<Rightarrow>
                  (case call_identities_of current_calls [] of
                     Inl e \<Rightarrow> Inl e
                   | Inr call_identities \<Rightarrow>
                       Inr (window_redundant, excess_calls batch_threshold call_identities))))"

text \<open>
  The loop over \<open>sorted_turns\<close> carries \<open>window_redundant_calls\<close>,
  \<open>batch_redundant_calls\<close> and \<open>redundant_by_turn\<close>.
\<close>

fun scan_turns ::
  "(int \<times> ToolCallInfo list) list \<Rightarrow> int \<Rightarrow> int \<Rightarrow> int list \<Rightarrow> int \<times> int \<times> (int \<times> int) list
     \<Rightarrow> py_error + int \<times> int \<times> (int \<times> int) list" where
  "scan_turns calls_by_turn window batch_threshold [] state = Inr state"
| "scan_turns calls_by_turn window batch_threshold (current_turn # sorted_turns)
       (window_count, batch_count, by_turn) =
     (case turn_redundancy calls_by_turn window batch_threshold current_turn of
        Inl e \<Rightarrow> Inl e
      | Inr (w, b) \<Rightarrow>
          scan_turns calls_by_turn window batch_threshold sorted_turns
            (window_count + w, batch_count + b, by_turn @ [(current_turn, w + b)]))"

text \<open>
  The quotient \<open>redundant / total\<close> is kept as the exact rational number that the
  Python float approximates.
\<close>

definition compute_tcrr_windowed :: "ToolCallInfo list \<Rightarrow> int \<Rightarrow> int \<Rightarrow> py_error + TCRRResult" where
  "compute_tcrr_windowed tool_calls window batch_threshold =
     (if tool_calls = [] then
        Inr \<lparr>total_calls = 0, redundant_calls = 0, redundancy_ratio = 0, redundant_by_turn = [],
             window_size = window, window_redundant_calls = 0, batch_redundant_calls = 0\<rparr>
      else
        (let total = int (length tool_calls);
             calls_by_turn = group_by_turn tool_calls [];
             sorted_turns = sort (map fst calls_by_turn)
         in case scan_turns calls_by_turn window batch_threshold sorted_turns (0, 0, []) of
              Inl e \<Rightarrow> Inl e
            | Inr (window_redundant, batch_redundant, by_turn) \<Rightarrow>
                (let total_redundant_calls = window_redundant + batch_redundant
                 in Inr \<lparr>total_calls = total,
                         redundant_calls = total_redundant_calls,
                         redundancy_ratio =
                           (if total > 0 then of_int total_redundant_calls / of_int total else 0),
                         redundant_by_turn = by_turn,
                         window_size = window,
                         window_redundant_calls = window_redundant,
                         batch_redundant_calls = batch_redundant\<rparr>)))"

section \<open>Floats\<close>

text \<open>
  A Python float is an IEEE 754 double, a rational number of the form \<open>m * 2^e\<close>.
  \<open>double x\<close> is the double nearest to the rational \<open>x\<close>, a tie going to the even
  significand: the value a decimal literal denotes, and the result of an arithmetic
  operation whose exact result is \<open>x\<close>. The doubles of the binade \<open>2^e \<le> |x| < 2^(e+1)\<close>
  are the multiples of \<open>2^(e-52)\<close>, below \<open>2^-1022\<close> the multiples of \<open>2^-1074\<close>. A
  result of magnitude \<open>2^1024\<close> or more is no double (overflow); the operations that
  can reach it test for it.
\<close>

definition pow2 :: "int \<Rightarrow> rat" where
  "pow2 e = (if 0 \<le> e then 2 ^ nat e else 1 / 2 ^ nat (- e))"

definition round_half_even :: "rat \<Rightarrow> int" where
  "round_half_even x =
     (let n = \<lfloor>x\<rfloor>; r = x - of_int n
      in if r < 1 / 2 then n else if 1 / 2 < r then n + 1 else if even n then n else n + 1)"

definition binade :: "rat \<Rightarrow> int" where
  "binade x =
     (let (p, q) = quotient_of \<bar>x\<bar>; d = bitlen p - bitlen q
      in if pow2 d \<le> \<bar>x\<bar> then d else d - 1)"

definition double :: "rat \<Rightarrow> rat" where
  "double x =
     (if x = 0 then 0
      else (let u = pow2 (max (binade x) (- 1022) - 52)
            in of_int (round_half_even (x / u)) * u))"

section \<open>The pass-hat-k estimator\<close>

text \<open>
  \<open>math.comb(n, k)\<close> is the binomial coefficient; it raises \<open>ValueError\<close> when an
  argument is negative and is 0 when \<open>k > n\<close>. The quotient \<open>a / b\<close> of two integers is
  the double nearest to the exact quotient; it raises \<open>ZeroDivisionError\<close> when \<open>b\<close>
  is 0 and \<open>OverflowError\<close> when the result is too large for a float.
\<close>

definition math_comb :: "int \<Rightarrow> int \<Rightarrow> py_error + int" where
  "math_comb n k =
     (if n < 0 \<or> k < 0 then Inl ValueError else Inr (int (nat n choose nat k)))"

definition true_div :: "int \<Rightarrow> int \<Rightarrow> py_error + rat" where
  "true_div a b =
     (if b = 0 then Inl ZeroDivisionError
      else (let q = double (of_int a / of_int b)
            in if 2 ^ 1024 \<le> \<bar>q\<bar> then Inl OverflowError else Inr q))"

definition pass_hat_k :: "int \<Rightarrow> int \<Rightarrow> int \<Rightarrow> py_error + rat" where
  "pass_hat_k num_trials success_count k =
     (if num_trials < k then Inl ValueError
      else
        (case math_comb success_count k of
           Inl e \<Rightarrow> Inl e
         | Inr a \<Rightarrow>
             (case math_comb num_trials k of
                Inl e \<Rightarrow> Inl e
              | Inr b \<Rightarrow> true_div a b)))"

section \<open>Aggregation (\<open>agent_metrics.py\<close>)\<close>

text \<open>
  Rewards, costs and rates are floats in the code, and rational numbers in the model;
  a comparison of two floats is the comparison of their values. The bounds of
  \<open>is_successful\<close> are the doubles that \<open>1 - 1e-6\<close> and \<open>1 + 1e-6\<close> evaluate to. The
  means and rates that are only reported are kept as the exact rational numbers that
  the floats approximate, and the weights \<open>0.5\<close>, \<open>0.3\<close> and \<open>0.2\<close> as the decimal
  fractions they denote.
\<close>

definition is_successful :: "rat \<Rightarrow> bool" where
  "is_successful reward =
     (double (1 - double (1 / 10 ^ 6)) \<le> reward \<and> reward \<le> double (1 + double (1 / 10 ^ 6)))"

definition safe_float :: "rat option \<Rightarrow> rat \<Rightarrow> rat" where
  "safe_float val fallback = (case val of None \<Rightarrow> fallback | Some v \<Rightarrow> v)"

subsection \<open>\<open>extract_tool_calls_from_messages\<close>\<close>

text \<open>
  The extractor of \<open>agent_metrics.py\<close> builds the same \<open>tool_results\<close> and the same two
  flags as the one of \<open>tcrr.py\<close>, and returns a dict per call with the keys \<open>name\<close>,
  \<open>params\<close>, \<open>cost\<close>, \<open>latency\<close>, \<open>correct\<close> and \<open>params_valid\<close>.
\<close>

record ToolCallMetric =
  m_name :: string
  m_params :: pyval
  m_cost :: rat
  m_latency :: rat
  m_correct :: bool
  m_params_valid :: bool

definition tool_call_metric :: "(string \<rightharpoonup> ToolResult) \<Rightarrow> Message \<Rightarrow> ToolCall \<Rightarrow> ToolCallMetric" where
  "tool_call_metric tool_results msg tool_call =
     \<lparr>m_name = tc_name tool_call,
      m_params = arguments tool_call,
      m_cost = safe_float (msg_cost msg) 0,
      m_latency = 0,
      m_correct = call_correct tool_results tool_call,
      m_params_valid = call_params_valid tool_results tool_call\<rparr>"

fun scan_messages_am ::
  "(string \<rightharpoonup> ToolResult) \<Rightarrow> Message list \<Rightarrow> ToolCallMetric list \<Rightarrow> ToolCallMetric list" where
  "scan_messages_am tool_results [] tool_calls = tool_calls"
| "scan_messages_am tool_results (msg # messages) tool_calls =
     scan_messages_am tool_results messages
       (tool_calls @ map (tool_call_metric tool_results msg) (msg_tool_calls msg))"

definition extract_tool_calls_from_messages :: "Message list \<Rightarrow> ToolCallMetric list" where
  "extract_tool_calls_from_messages messages =
     scan_messages_am (collect_tool_results messages Map.empty) messages []"

subsection \<open>Simulation runs and the external estimators\<close>

text \<open>
  Modelled from the spec: \<open>SimulationRun\<close> of \<open>tau2.data_model.simulation\<close> and the
  result of the enhanced TSR estimator. A simulation run has a task id, its messages,
  an optional reward information (of which only the reward is read) and an optional
  agent cost. The enhanced TSR estimator \<open>tau2.metrics.tsr.compute_tsr_enhanced\<close> and
  the data-frame part of \<open>compute_metrics\<close> (\<open>get_metrics_df\<close> and the columns read
  from it) are not part of the metrics module: the model takes their outcome, a result
  or an exception, as \<open>Externals\<close>. Of \<open>AgentMetrics\<close> the model keeps the reward,
  cost, pass-hat-k and TSR fields and the number of tool calls; the TUE, TCRR and GSRT
  fields, each computed inside a \<open>try\<close> of its own, are left out.
\<close>

record SimulationRun =
  task_id :: string
  messages :: "Message list"
  reward_info :: "rat option"
  agent_cost :: "rat option"

record TSRResult =
  overall_tsr :: rat
  communicate_info_rate :: rat
  action_rate :: rat
  nl_assertion_rate :: rat
  weights :: "(string \<times> rat) list"
  by_task :: "(string \<times> rat) list"

record Externals =
  metrics_df :: "py_error + rat \<times> (int \<times> rat) list \<times> rat"
  compute_tsr_enhanced :: "py_error + TSRResult"

record AgentMetrics =
  avg_reward :: rat
  pass_hat_ks :: "(int \<times> rat) list"
  avg_agent_cost :: rat
  tsr :: rat
  num_tool_calls :: int
  tsr_communicate_info :: rat
  tsr_action :: rat
  tsr_nl_assertion :: rat
  tsr_weights :: "(string \<times> rat) list"
  tsr_by_task :: "(string \<times> rat) list"

subsection \<open>\<open>compute_metrics_simple\<close>\<close>

definition mean :: "rat list \<Rightarrow> rat" where
  "mean xs = sum_list xs / of_nat (length xs)"

definition reward_of :: "SimulationRun \<Rightarrow> rat" where
  "reward_of sim = (case reward_info sim of None \<Rightarrow> 0 | Some r \<Rightarrow> r)"

text \<open>
  The trials of a task are grouped in \<open>task_groups\<close>, each as \<open>is_successful\<close> of its
  reward; \<open>pass_hat_ks[1]\<close> is the mean over the tasks of the share of successful trials.
\<close>

fun group_success :: "string \<Rightarrow> bool \<Rightarrow> (string \<times> bool list) list \<Rightarrow> (string \<times> bool list) list" where
  "group_success tid b [] = [(tid, [b])]"
| "group_success tid b ((t, bs) # rest) =
     (if t = tid then (t, bs @ [b]) # rest else (t, bs) # group_success tid b rest)"

fun task_groups_of :: "SimulationRun list \<Rightarrow> (string \<times> bool list) list \<Rightarrow> (string \<times> bool list) list" where
  "task_groups_of [] task_groups = task_groups"
| "task_groups_of (sim # simulations) task_groups =
     task_groups_of simulations
       (group_success (task_id sim) (is_successful (reward_of sim)) task_groups)"

definition simple_pass_hat_ks :: "SimulationRun list \<Rightarrow> (int \<times> rat) list" where
  "simple_pass_hat_ks simulations =
     (if simulations = [] then []
      else
        (let task_groups = task_groups_of simulations [];
             task_success_rates =
               map (\<lambda>(tid, successes).
                      of_nat (length (filter (\<lambda>b. b) successes)) / of_nat (length successes))
                 task_groups
         in if task_groups = [] then [] else [(1, mean task_success_rates)]))"

text \<open>
  The task ids of the runs, each once, in the order of their first occurrence: the keys
  of \<open>task_groups\<close>, against which the pass-hat-k of the simple path is measured.
\<close>

definition tasks_of :: "SimulationRun list \<Rightarrow> string list" where
  "tasks_of simulations = rev (remdups (rev (map task_id simulations)))"

text \<open>
  The TSR fields: from the enhanced estimator, or, in the handler of its \<open>try\<close>, the
  share of the runs that have a reward information with a positive reward, with zero
  channel rates and the default weights.
\<close>

record TSRSection =
  s_tsr :: rat
  s_communicate_info :: rat
  s_action :: rat
  s_nl_assertion :: rat
  s_weights :: "(string \<times> rat) list"
  s_by_task :: "(string \<times> rat) list"

definition simple_tsr :: "SimulationRun list \<Rightarrow> TSRSection" where
  "simple_tsr simulations =
     (let success_count =
            length (filter (\<lambda>sim. reward_info sim \<noteq> None \<and> safe_float (reward_info sim) 0 > 0)
                      simulations)
      in \<lparr>s_tsr = (if simulations \<noteq> [] then of_nat success_count / of_nat (length simulations) else 0),
          s_communicate_info = 0,
          s_action = 0,
          s_nl_assertion = 0,
          s_weights = [(''communicate_info'', 1 / 2), (''action'', 3 / 10), (''nl_assertion'', 1 / 5)],
          s_by_task = []\<rparr>)"

definition tsr_section :: "Externals \<Rightarrow> SimulationRun list \<Rightarrow> TSRSection" where
  "tsr_section ext simulations =
     (case compute_tsr_enhanced ext of
        Inr tsr_result \<Rightarrow>
          \<lparr>s_tsr = overall_tsr tsr_result,
           s_communicate_info = communicate_info_rate tsr_result,
           s_action = action_rate tsr_result,
           s_nl_assertion = nl_assertion_rate tsr_result,
           s_weights = weights tsr_result,
           s_by_task = by_task tsr_result\<rparr>
      | Inl e \<Rightarrow> simple_tsr simulations)"

definition all_tool_calls_of :: "SimulationRun list \<Rightarrow> ToolCallMetric list" where
  "all_tool_calls_of simulations =
     concat (map (\<lambda>run. extract_tool_calls_from_messages (messages run)) simulations)"

definition assemble :: "rat \<Rightarrow> (int \<times> rat) list \<Rightarrow> rat \<Rightarrow> TSRSection \<Rightarrow> int \<Rightarrow> AgentMetrics" where
  "assemble reward ks cost sec n =
     \<lparr>avg_reward = reward, pass_hat_ks = ks, avg_agent_cost = cost,
      tsr = s_tsr sec, num_tool_calls = n,
      tsr_communicate_info = s_communicate_info sec, tsr_action = s_action sec,
      tsr_nl_assertion = s_nl_assertion sec, tsr_weights = s_weights sec,
      tsr_by_task = s_by_task sec\<rparr>"

definition compute_metrics_simple :: "Externals \<Rightarrow> SimulationRun list \<Rightarrow> AgentMetrics" where
  "compute_metrics_simple ext simulations =
     (let rewards = map reward_of simulations;
          reward = (if rewards \<noteq> [] then mean rewards else 0);
          agent_costs = map (\<lambda>sim. case agent_cost sim of None \<Rightarrow> 0 | Some c \<Rightarrow> c) simulations;
          cost = (if agent_costs \<noteq> [] then mean agent_costs else 0);
          ks = simple_pass_hat_ks simulations;
          sec = tsr_section ext simulations;
          all_tool_calls = all_tool_calls_of simulations
      in assemble reward ks cost sec (int (length all_tool_calls)))"

subsection \<open>The simple redundancy count\<close>

text \<open>
  In the handler of the enhanced TCRR, \<open>compute_metrics_simple\<close> and
  \<open>compute_metrics\<close> count the calls whose identity was seen before. The identity is
  \<open>(call["name"], normalized_params(call["params"]))\<close>; the membership test and the
  insertion are inside the \<open>try\<close>, and the handler of \<open>except Exception\<close> repeats
  them with \<open>(call["name"], str(call["params"]))\<close>. (The count is part of the TCRR
  fields, which the modelled report leaves out.)
\<close>

definition normalized_identity_am :: "ToolCallMetric \<Rightarrow> py_error + pyval" where
  "normalized_identity_am call =
     (case normalized_params_am (m_params call) of
        Inl e \<Rightarrow> Inl e
      | Inr params_norm \<Rightarrow> Inr (PTuple [PStr (m_name call), params_norm]))"

definition str_identity_am :: "ToolCallMetric \<Rightarrow> pyval" where
  "str_identity_am call = PTuple [PStr (m_name call), PStr (py_str (m_params call))]"

definition seen_or_add :: "pyval list \<Rightarrow> int \<Rightarrow> pyval \<Rightarrow> py_error + pyval list \<times> int" where
  "seen_or_add seen_calls duplicate_count identity =
     (case set_contains seen_calls identity of
        Inl e \<Rightarrow> Inl e
      | Inr found \<Rightarrow>
          if found then Inr (seen_calls, duplicate_count + 1)
          else (case set_add seen_calls identity of
                  Inl e \<Rightarrow> Inl e
                | Inr added \<Rightarrow> Inr (added, duplicate_count)))"

fun count_duplicates :: "ToolCallMetric list \<Rightarrow> pyval list \<Rightarrow> int \<Rightarrow> py_error + int" where
  "count_duplicates [] seen_calls duplicate_count = Inr duplicate_count"
| "count_duplicates (call # all_tool_calls) seen_calls duplicate_count =
     (case (case normalized_identity_am call of
              Inl e \<Rightarrow> Inl e
            | Inr identity \<Rightarrow> seen_or_add seen_calls duplicate_count identity) of
        Inr (seen, n) \<Rightarrow> count_duplicates all_tool_calls seen n
      | Inl e \<Rightarrow>
          (case seen_or_add seen_calls duplicate_count (str_identity_am call) of
             Inl e' \<Rightarrow> Inl e'
           | Inr (seen, n) \<Rightarrow> count_duplicates all_tool_calls seen n))"

subsection \<open>\<open>compute_metrics\<close>\<close>

text \<open>
  \<open>compute_metrics_full\<close> is the body of the outer \<open>try\<close>; any exception in it hands
  over to \<open>compute_metrics_simple\<close>.
\<close>

definition compute_metrics_full :: "Externals \<Rightarrow> SimulationRun list \<Rightarrow> py_error + AgentMetrics" where
  "compute_metrics_full ext simulations =
     (case metrics_df ext of
        Inl e \<Rightarrow> Inl e
      | Inr (reward, ks, cost) \<Rightarrow>
          (let sec = tsr_section ext simulations;
               all_tool_calls = all_tool_calls_of simulations
           in Inr (assemble reward ks cost sec (int (length all_tool_calls)))))"

definition compute_metrics :: "Externals \<Rightarrow> SimulationRun list \<Rightarrow> py_error + AgentMetrics" where
  "compute_metrics ext simulations =
     (case compute_metrics_full ext simulations of
        Inr metrics \<Rightarrow> Inr metrics
      | Inl e \<Rightarrow> Inr (compute_metrics_simple ext simulations))"

section \<open>Properties of the pass-hat-k estimator\<close>

lemma pow2_pos: "0 < pow2 e"
  by (simp add: pow2_def)

lemma round_half_even_bounds:
  "\<lfloor>x\<rfloor> \<le> round_half_even x" "round_half_even x \<le> \<lceil>x\<rceil>"
  unfolding round_half_even_def Let_def
  by (auto simp: ceiling_altdef)

lemma round_half_even_unit:
  assumes "0 \<le> x" "x \<le> of_int n"
  shows "0 \<le> round_half_even x" "round_half_even x \<le> n"
proof -
  have "0 \<le> \<lfloor>x\<rfloor>" using assms(1) by simp
  then show "0 \<le> round_half_even x"
    using round_half_even_bounds(1) [of x] by linarith
  have "\<lceil>x\<rceil> \<le> n" using assms(2) by (simp add: ceiling_le_iff)
  then show "round_half_even x \<le> n"
    using round_half_even_bounds(2) [of x] by linarith
qed

lemma binade_le_0:
  assumes "0 < x" "x \<le> 1"
  shows "binade x \<le> 0"
proof -
  obtain p q where pq: "quotient_of \<bar>x\<bar> = (p, q)" by (cases "quotient_of \<bar>x\<bar>")
  then have q: "0 < q" and x: "\<bar>x\<bar> = of_int p / of_int q"
    using quotient_of_denom_pos quotient_of_div by blast+
  from x assms have "of_int p / of_int q \<le> (1::rat)"
    by simp
  then have "of_int p \<le> (of_int q :: rat)"
    using q by (simp add: pos_divide_le_eq)
  then have "p \<le> q"
    by simp
  then have "bitlen p \<le> bitlen q"
    by (simp add: bitlen_def floorlog_mono)
  then show ?thesis
    by (simp add: binade_def pq Let_def)
qed

text \<open>
  The double nearest to a number between 0 and 1 lies between 0 and 1.
\<close>

lemma double_unit:
  assumes "0 \<le> x" "x \<le> 1"
  shows "0 \<le> double x \<and> double x \<le> 1"
proof (cases "x = 0")
  case True
  then show ?thesis by (simp add: double_def)
next
  case False
  define e where "e = max (binade x) (- 1022) - 52"
  have "e \<le> 0"
    using binade_le_0 [of x] assms False by (simp add: e_def)
  then have u: "pow2 e = 1 / 2 ^ nat (- e)"
    by (auto simp: pow2_def)
  have "x / pow2 e \<le> of_int (2 ^ nat (- e))"
    using assms by (simp add: u mult_le_cancel_right1)
  moreover have "0 \<le> x / pow2 e"
    using assms pow2_pos [of e] by simp
  ultimately have r: "0 \<le> round_half_even (x / pow2 e)"
    "round_half_even (x / pow2 e) \<le> 2 ^ nat (- e)"
    using round_half_even_unit [of "x / pow2 e" "2 ^ nat (- e)"] by simp_all
  have d: "double x = of_int (round_half_even (x / pow2 e)) * pow2 e"
    using False by (simp add: double_def e_def Let_def)
  have "of_int (round_half_even (x / pow2 e)) * pow2 e \<le> of_int (2 ^ nat (- e)) * pow2 e"
    using r(2) pow2_pos [of e] by (simp add: mult_right_mono del: of_int_power of_int_numeral)
  also have "\<dots> = 1" by (simp add: u)
  finally have "double x \<le> 1" by (simp add: d)
  moreover have "0 \<le> double x"
    using r(1) pow2_pos [of e] by (simp add: d)
  ultimately show ?thesis by simp
qed



section \<open>Properties of the aggregation\<close>

lemma tsr_section_fallback:
  "compute_tsr_enhanced ext = Inl e \<Longrightarrow> tsr_section ext simulations = simple_tsr simulations"
  by (simp add: tsr_section_def)

text \<open>
  C8. When the enhanced TSR estimator raises, \<open>compute_metrics\<close> returns a report (it
  does not raise), on the full path as on the simple one, whose \<open>tsr\<close> is the number of
  runs with a strictly positive reward divided by the number of runs (0 without runs),
  whose three channel rates are 0 and whose weights are the defaults 0.5, 0.3 and 0.2.
\<close>

theorem compute_metrics_tsr_fallback:
  assumes "compute_tsr_enhanced ext = Inl e"
  shows "\<exists>metrics. compute_metrics ext simulations = Inr metrics
     \<and> tsr metrics =
         (if simulations = [] then 0
          else of_nat (length (filter (\<lambda>sim. case reward_info sim of None \<Rightarrow> False | Some r \<Rightarrow> 0 < r) simulations))
               / of_nat (length simulations))
     \<and> tsr_communicate_info metrics = 0
     \<and> tsr_action metrics = 0
     \<and> tsr_nl_assertion metrics = 0
     \<and> tsr_weights metrics =
         [(''communicate_info'', 1 / 2), (''action'', 3 / 10), (''nl_assertion'', 1 / 5)]"
proof -
  have pos: "(\<lambda>sim. reward_info sim \<noteq> None \<and> safe_float (reward_info sim) 0 > 0) =
             (\<lambda>sim. case reward_info sim of None \<Rightarrow> False | Some r \<Rightarrow> 0 < r)"
    by (auto simp: safe_float_def fun_eq_iff split: option.splits)
  have sec: "tsr_section ext simulations =
      \<lparr>s_tsr =
         (if simulations \<noteq> [] then
            of_nat (length (filter (\<lambda>sim. case reward_info sim of None \<Rightarrow> False | Some r \<Rightarrow> 0 < r)
                              simulations))
            / of_nat (length simulations)
          else 0),
       s_communicate_info = 0, s_action = 0, s_nl_assertion = 0,
       s_weights = [(''communicate_info'', 1 / 2), (''action'', 3 / 10), (''nl_assertion'', 1 / 5)],
       s_by_task = []\<rparr>"
    unfolding tsr_section_fallback [OF assms] simple_tsr_def Let_def pos ..
  show ?thesis
  proof (cases "compute_metrics_full ext simulations")
    case (Inl err)
    then show ?thesis
      by (simp add: compute_metrics_def compute_metrics_simple_def Let_def assemble_def sec)
  next
    case (Inr m)
    then show ?thesis
      by (auto simp: compute_metrics_def compute_metrics_full_def Let_def assemble_def sec
          split: sum.splits prod.splits)
  qed
qed

theorem compute_metrics_tsr_fallback_witness:
  "\<exists>metrics. compute_metrics \<lparr>metrics_df = Inl AttributeError, compute_tsr_enhanced = Inl ValueError\<rparr>
       [\<lparr>task_id = ''t1'', messages = [], reward_info = Some (1 / 2), agent_cost = None\<rparr>,
        \<lparr>task_id = ''t2'', messages = [], reward_info = None, agent_cost = None\<rparr>] = Inr metrics
     \<and> tsr metrics = 1 / 2"
  using compute_metrics_tsr_fallback [of "\<lparr>metrics_df = Inl AttributeError, compute_tsr_enhanced = Inl ValueError\<rparr>" ValueError
      "[\<lparr>task_id = ''t1'', messages = [], reward_info = Some (1 / 2), agent_cost = None\<rparr>,
        \<lparr>task_id = ''t2'', messages = [], reward_info = None, agent_cost = None\<rparr>]"]
  by auto

lemma band_bounds:
  "double (1 - double (1 / 10 ^ 6)) = 9007190247541737 / 2 ^ 53"
  "double (1 + double (1 / 10 ^ 6)) = 4503604130970123 / 2 ^ 52"
  by code_simp+

lemma task_groups_of_snoc:
  "task_groups_of (sims @ [s]) acc =
     group_success (task_id s) (is_successful (reward_of s)) (task_groups_of sims acc)"
  by (induction sims arbitrary: acc) simp_all

lemma group_success_map:
  "distinct ts \<Longrightarrow>
   group_success t b (map (\<lambda>u. (u, f u)) ts) =
     (if t \<in> set ts then map (\<lambda>u. (u, if u = t then f u @ [b] else f u)) ts
      else map (\<lambda>u. (u, f u)) ts @ [(t, [b])])"
  by (induction ts) auto

lemma distinct_tasks_of: "distinct (tasks_of sims)"
  by (simp add: tasks_of_def)

lemma tasks_of_snoc:
  "tasks_of (sims @ [s]) =
     (if task_id s \<in> set (tasks_of sims) then tasks_of sims else tasks_of sims @ [task_id s])"
  by (simp add: tasks_of_def)

lemma set_tasks_of: "set (tasks_of sims) = task_id ` set sims"
  by (simp add: tasks_of_def)

text \<open>
  \<open>task_groups\<close> holds, for every task in the order of first occurrence, the outcomes
  of the runs of that task.
\<close>

lemma task_groups_of_tasks:
  "task_groups_of sims [] =
     map (\<lambda>t. (t, map (\<lambda>s. is_successful (reward_of s)) (filter (\<lambda>s. task_id s = t) sims)))
       (tasks_of sims)"
proof (induction sims rule: rev_induct)
  case Nil
  show ?case by (simp add: tasks_of_def)
next
  case (snoc s sims)
  show ?case
    unfolding task_groups_of_snoc snoc.IH
    by (auto simp: group_success_map [OF distinct_tasks_of] tasks_of_snoc
        set_tasks_of filter_empty_conv image_iff)
qed

lemma simple_pass_hat_ks_tasks:
  assumes "sims \<noteq> []"
  shows "simple_pass_hat_ks sims =
     [(1, mean (map (\<lambda>t. of_nat (length (filter (\<lambda>s. task_id s = t \<and> is_successful (reward_of s)) sims))
                        / of_nat (length (filter (\<lambda>s. task_id s = t) sims)))
                 (tasks_of sims)))]"
proof -
  have ne: "tasks_of sims \<noteq> []"
    using assms set_tasks_of [of sims] by (cases sims) auto
  have len: "length (filter (\<lambda>b. b) (map (\<lambda>s. is_successful (reward_of s))
        (filter (\<lambda>s. task_id s = t) sims))) =
      length (filter (\<lambda>s. task_id s = t \<and> is_successful (reward_of s)) sims)" for t
    by (simp add: filter_map comp_def conj_commute)
  show ?thesis
    using assms ne
    by (simp add: simple_pass_hat_ks_def task_groups_of_tasks Let_def comp_def len)
qed

text \<open>
  C10. \<open>is_successful r\<close> holds exactly when \<open>1 - 1e-6 \<le> r \<le> 1 + 1e-6\<close>, the two
  bounds being the floats these expressions evaluate to, \<open>9007190247541737 / 2^53\<close>
  and \<open>4503604130970123 / 2^52\<close>. It is the predicate by which the simple path counts
  the successful trials of a task: \<open>pass_hat_ks[1]\<close> is the mean, over the tasks, of
  the share of the runs of the task whose reward lies in that band (a run without
  reward information counts with reward 0). So a single run with a reward in the band
  gives \<open>pass_hat_ks[1] = 1\<close>, and a single run with a strictly positive reward below
  the band, such as 0.5, gives \<open>pass_hat_ks[1] = 0\<close>, while the TSR fallback, of
  \<open>compute_metrics_simple\<close> and of \<open>compute_metrics\<close>, counts that run as a success:
  \<open>tsr = 1\<close>.
\<close>

theorem is_successful_band:
  "is_successful r = (9007190247541737 / 2 ^ 53 \<le> r \<and> r \<le> 4503604130970123 / 2 ^ 52)
   \<and> \<not> is_successful (1 / 2)
   \<and> (simulations \<noteq> [] \<longrightarrow>
        pass_hat_ks (compute_metrics_simple ext simulations) =
          [(1, mean (map (\<lambda>t.
                  of_nat (length (filter (\<lambda>sim. task_id sim = t
                     \<and> (case reward_info sim of
                          None \<Rightarrow> False
                        | Some x \<Rightarrow> 9007190247541737 / 2 ^ 53 \<le> x \<and> x \<le> 4503604130970123 / 2 ^ 52))
                     simulations))
                  / of_nat (length (filter (\<lambda>sim. task_id sim = t) simulations)))
               (tasks_of simulations)))])
   \<and> (is_successful r \<longrightarrow>
        pass_hat_ks (compute_metrics_simple ext [\<lparr>task_id = t, messages = ms, reward_info = Some r, agent_cost = c\<rparr>]) = [(1, 1)])
   \<and> (0 < r \<and> r < 9007190247541737 / 2 ^ 53 \<longrightarrow>
        \<not> is_successful r
        \<and> pass_hat_ks (compute_metrics_simple ext [\<lparr>task_id = t, messages = ms, reward_info = Some r, agent_cost = c\<rparr>]) = [(1, 0)]
        \<and> (compute_tsr_enhanced ext = Inl e \<longrightarrow>
             tsr (compute_metrics_simple ext [\<lparr>task_id = t, messages = ms, reward_info = Some r, agent_cost = c\<rparr>]) = 1
             \<and> (\<exists>metrics. compute_metrics ext [\<lparr>task_id = t, messages = ms, reward_info = Some r, agent_cost = c\<rparr>] = Inr metrics \<and> tsr metrics = 1)))"
proof -
  have band: "is_successful x = (9007190247541737 / 2 ^ 53 \<le> x \<and> x \<le> 4503604130970123 / 2 ^ 52)"
    for x
    by (simp only: is_successful_def band_bounds)
  have outcome: "is_successful (reward_of sim) =
      (case reward_info sim of
         None \<Rightarrow> False
       | Some x \<Rightarrow> 9007190247541737 / 2 ^ 53 \<le> x \<and> x \<le> 4503604130970123 / 2 ^ 52)" for sim
    by (simp add: band reward_of_def split: option.splits)
  have ks: "pass_hat_ks (compute_metrics_simple ext sims) = simple_pass_hat_ks sims" for sims
    by (simp add: compute_metrics_simple_def Let_def assemble_def)
  have general: "pass_hat_ks (compute_metrics_simple ext simulations) =
          [(1, mean (map (\<lambda>t.
                  of_nat (length (filter (\<lambda>sim. task_id sim = t
                     \<and> (case reward_info sim of
                          None \<Rightarrow> False
                        | Some x \<Rightarrow> 9007190247541737 / 2 ^ 53 \<le> x \<and> x \<le> 4503604130970123 / 2 ^ 52))
                     simulations))
                  / of_nat (length (filter (\<lambda>sim. task_id sim = t) simulations)))
               (tasks_of simulations)))]"
    if "simulations \<noteq> []"
    unfolding ks simple_pass_hat_ks_tasks [OF that] outcome ..
  have single: "pass_hat_ks (compute_metrics_simple ext [\<lparr>task_id = t, messages = ms, reward_info = Some r, agent_cost = c\<rparr>]) =
      [(1, if is_successful r then 1 else 0)]"
    by (simp add: ks simple_pass_hat_ks_def reward_of_def mean_def)
  have tsr1: "tsr (compute_metrics_simple ext [\<lparr>task_id = t, messages = ms, reward_info = Some r, agent_cost = c\<rparr>]) = 1"
    if "compute_tsr_enhanced ext = Inl e" "0 < r"
    using that
    by (simp add: compute_metrics_simple_def Let_def assemble_def tsr_section_def simple_tsr_def
        safe_float_def)
  have tsr2: "\<exists>metrics. compute_metrics ext [\<lparr>task_id = t, messages = ms, reward_info = Some r, agent_cost = c\<rparr>] = Inr metrics \<and> tsr metrics = 1"
    if "compute_tsr_enhanced ext = Inl e" "0 < r"
  proof (cases "compute_metrics_full ext [\<lparr>task_id = t, messages = ms, reward_info = Some r, agent_cost = c\<rparr>]")
    case (Inl err)
    then show ?thesis
      using tsr1 [OF that] by (simp add: compute_metrics_def)
  next
    case (Inr m)
    then show ?thesis
      using that
      by (auto simp: compute_metrics_def compute_metrics_full_def Let_def assemble_def
          tsr_section_def simple_tsr_def safe_float_def split: sum.splits prod.splits)
  qed
  have below: "\<not> is_successful r" if "r < 9007190247541737 / 2 ^ 53"
    using that by (simp add: band)
  have half: "\<not> is_successful (1 / 2)"
    by (simp add: band)
  show ?thesis
    using band [of r] half general single tsr1 tsr2 below by simp
qed

theorem is_successful_band_witness:
  "[\<lparr>task_id = ''t1'', messages = [], reward_info = Some (1 / 2), agent_cost = None\<rparr>, \<lparr>task_id = ''t1'', messages = [], reward_info = Some 1, agent_cost = None\<rparr>, \<lparr>task_id = ''t2'', messages = [], reward_info = Some 1, agent_cost = None\<rparr>] \<noteq> []
   \<and> pass_hat_ks (compute_metrics_simple \<lparr>metrics_df = Inl AttributeError, compute_tsr_enhanced = Inl ValueError\<rparr> [\<lparr>task_id = ''t1'', messages = [], reward_info = Some (1 / 2), agent_cost = None\<rparr>, \<lparr>task_id = ''t1'', messages = [], reward_info = Some 1, agent_cost = None\<rparr>, \<lparr>task_id = ''t2'', messages = [], reward_info = Some 1, agent_cost = None\<rparr>]) = [(1, 3 / 4)]
   \<and> is_successful 1
   \<and> pass_hat_ks (compute_metrics_simple \<lparr>metrics_df = Inl AttributeError, compute_tsr_enhanced = Inl ValueError\<rparr> [\<lparr>task_id = ''t1'', messages = [], reward_info = Some 1, agent_cost = None\<rparr>]) = [(1, 1)]
   \<and> (0::rat) < 1 / 2 \<and> (1 / 2 :: rat) < 9007190247541737 / 2 ^ 53
   \<and> \<not> is_successful (1 / 2)
   \<and> pass_hat_ks (compute_metrics_simple \<lparr>metrics_df = Inl AttributeError, compute_tsr_enhanced = Inl ValueError\<rparr> [\<lparr>task_id = ''t1'', messages = [], reward_info = Some (1 / 2), agent_cost = None\<rparr>]) = [(1, 0)]
   \<and> tsr (compute_metrics_simple \<lparr>metrics_df = Inl AttributeError, compute_tsr_enhanced = Inl ValueError\<rparr> [\<lparr>task_id = ''t1'', messages = [], reward_info = Some (1 / 2), agent_cost = None\<rparr>]) = 1"
proof -
  show ?thesis
    using is_successful_band [of "1 / 2" "[\<lparr>task_id = ''t1'', messages = [], reward_info = Some (1 / 2), agent_cost = None\<rparr>, \<lparr>task_id = ''t1'', messages = [], reward_info = Some 1, agent_cost = None\<rparr>, \<lparr>task_id = ''t2'', messages = [], reward_info = Some 1, agent_cost = None\<rparr>]" "\<lparr>metrics_df = Inl AttributeError, compute_tsr_enhanced = Inl ValueError\<rparr>" "''t1''" "[]" None ValueError]
      is_successful_band [of 1 "[\<lparr>task_id = ''t1'', messages = [], reward_info = Some 1, agent_cost = None\<rparr>]" "\<lparr>metrics_df = Inl AttributeError, compute_tsr_enhanced = Inl ValueError\<rparr>" "''t1''" "[]" None ValueError]
    by (simp add: tasks_of_def mean_def)
qed

section \<open>Properties of the extractors\<close>

lemma scan_messages_acc:
  "scan_messages tr msgs n acc = acc @ scan_messages tr msgs n []"
proof (induction msgs arbitrary: n acc)
  case Nil
  show ?case by simp
next
  case (Cons m msgs)
  define n' where "n' = (if is_assistant m then n + 1 else n)"
  define block where "block = map (tool_call_info tr m n') (msg_tool_calls m)"
  have "scan_messages tr (m # msgs) n acc = scan_messages tr msgs n' (acc @ block)"
    by (simp add: Let_def n'_def block_def)
  also have "\<dots> = (acc @ block) @ scan_messages tr msgs n' []"
    by (rule Cons.IH)
  also have "\<dots> = acc @ scan_messages tr msgs n' block"
    using Cons.IH [of n' block] by simp
  also have "\<dots> = acc @ scan_messages tr (m # msgs) n []"
    by (simp add: Let_def n'_def block_def)
  finally show ?case .
qed

lemma scan_messages_Cons:
  "scan_messages tr (m # msgs) n [] =
     map (tool_call_info tr m (if is_assistant m then n + 1 else n)) (msg_tool_calls m) @
     scan_messages tr msgs (if is_assistant m then n + 1 else n) []"
  using scan_messages_acc [of tr msgs "if is_assistant m then n + 1 else n"
      "map (tool_call_info tr m (if is_assistant m then n + 1 else n)) (msg_tool_calls m)"]
  by (simp add: Let_def)

lemma scan_messages_snoc:
  "scan_messages tr (msgs @ [m]) n [] =
     scan_messages tr msgs n [] @
     map (tool_call_info tr m (n + int (length (filter is_assistant (msgs @ [m]))))) (msg_tool_calls m)"
proof (induction msgs arbitrary: n)
  case Nil
  show ?case by (simp add: scan_messages_Cons)
next
  case (Cons a msgs)
  show ?case
    by (simp only: append_Cons scan_messages_Cons Cons.IH) (simp add: ac_simps)
qed

lemma scan_messages_index:
  "scan_messages tr msgs 0 [] =
     concat (map (\<lambda>i. map (tool_call_info tr (msgs ! i) (assistant_turns_upto msgs i))
                        (msg_tool_calls (msgs ! i))) [0..<length msgs])"
proof (induction msgs rule: rev_induct)
  case Nil
  show ?case by simp
next
  case (snoc m msgs)
  have old: "map (\<lambda>i. map (tool_call_info tr ((msgs @ [m]) ! i) (assistant_turns_upto (msgs @ [m]) i))
                        (msg_tool_calls ((msgs @ [m]) ! i))) [0..<length msgs] =
             map (\<lambda>i. map (tool_call_info tr (msgs ! i) (assistant_turns_upto msgs i))
                        (msg_tool_calls (msgs ! i))) [0..<length msgs]"
    by (rule map_cong) (auto simp: assistant_turns_upto_def nth_append)
  have new: "assistant_turns_upto (msgs @ [m]) (length msgs) =
             0 + int (length (filter is_assistant (msgs @ [m])))"
    by (simp add: assistant_turns_upto_def)
  show ?case
    by (simp only: scan_messages_snoc snoc.IH length_append_singleton upt_Suc_append [OF le0]
        map_append concat_append old new [symmetric]) simp
qed

lemma collect_tool_results_correlated:
  "collect_tool_results msgs tr cid =
     (case correlated_result msgs cid of
        Some (e, c) \<Rightarrow> Some \<lparr>success = \<not> e, error = e, content = c\<rparr>
      | None \<Rightarrow> tr cid)"
proof (induction msgs arbitrary: tr)
  case Nil
  show ?case by simp
next
  case (Cons m msgs)
  show ?case
    by (cases m) (auto simp: Cons.IH split: option.splits)
qed

lemma contains_sublist: "contains keyword s = sublist keyword s"
  by (induction s) (auto simp: sublist_Cons_right)

lemma call_correct_correlated:
  "call_correct (collect_tool_results msgs Map.empty) tc =
     (case correlated_result msgs (tc_id tc) of None \<Rightarrow> True | Some (e, c) \<Rightarrow> \<not> e)"
  by (simp add: call_correct_def collect_tool_results_correlated split: option.splits)

lemma call_params_valid_correlated:
  "call_params_valid (collect_tool_results msgs Map.empty) tc =
     (\<not> reports_param_error (correlated_result msgs (tc_id tc)))"
  by (auto simp: call_params_valid_def collect_tool_results_correlated reports_param_error_def
      contains_sublist lower_def param_error_keywords_def split: option.splits)


lemma scan_messages_am_acc:
  "scan_messages_am tr msgs acc = acc @ scan_messages_am tr msgs []"
proof (induction msgs arbitrary: acc)
  case Nil
  show ?case by simp
next
  case (Cons m msgs)
  define block where "block = map (tool_call_metric tr m) (msg_tool_calls m)"
  have "scan_messages_am tr (m # msgs) acc = scan_messages_am tr msgs (acc @ block)"
    by (simp add: block_def)
  also have "\<dots> = (acc @ block) @ scan_messages_am tr msgs []"
    by (rule Cons.IH)
  also have "\<dots> = acc @ scan_messages_am tr msgs block"
    using Cons.IH [of block] by simp
  also have "\<dots> = acc @ scan_messages_am tr (m # msgs) []"
    by (simp add: block_def)
  finally show ?case .
qed

lemma scan_messages_am_concat:
  "scan_messages_am tr msgs [] =
     concat (map (\<lambda>msg. map (tool_call_metric tr msg) (msg_tool_calls msg)) msgs)"
proof (induction msgs)
  case Nil
  show ?case by simp
next
  case (Cons m msgs)
  show ?case
    using scan_messages_am_acc [of tr msgs "map (tool_call_metric tr m) (msg_tool_calls m)"]
    by (simp add: Cons.IH)
qed

text \<open>
  C4. The extracted calls are, message by message and in order, the calls of each
  message, each stamped with the number of assistant messages up to and including its
  message: the counter is 0 before the first assistant message, and grows by exactly 1
  at each assistant message. So a call carried by a message before any assistant message
  has assistant-turn index 0, and the calls of the first assistant message have
  index 1.
\<close>

theorem extract_turn_indexing:
  "extract_tool_calls_with_turns msgs =
     concat (map (\<lambda>i. map (tool_call_info (collect_tool_results msgs Map.empty) (msgs ! i)
                             (assistant_turns_upto msgs i))
                        (msg_tool_calls (msgs ! i))) [0..<length msgs])
   \<and> assistant_turn_idx (tool_call_info tr msg n tc) = n
   \<and> assistant_turns_upto msgs 0 = (if msgs \<noteq> [] \<and> is_assistant (msgs ! 0) then 1 else 0)
   \<and> assistant_turns_upto msgs (Suc i) =
       assistant_turns_upto msgs i
       + (if Suc i < length msgs \<and> is_assistant (msgs ! Suc i) then 1 else 0)
   \<and> (i < length msgs \<and> \<not> (\<exists>m \<in> set (take (Suc i) msgs). is_assistant m) \<longrightarrow>
        (\<forall>tc \<in> set (msg_tool_calls (msgs ! i)).
           \<exists>info \<in> set (extract_tool_calls_with_turns msgs).
             call_id info = tc_id tc \<and> name info = tc_name tc \<and> assistant_turn_idx info = 0))
   \<and> (i < length msgs \<and> is_assistant (msgs ! i)
        \<and> \<not> (\<exists>m \<in> set (take i msgs). is_assistant m) \<longrightarrow>
        assistant_turns_upto msgs i = 1)"
proof -
  have formula: "extract_tool_calls_with_turns msgs =
     concat (map (\<lambda>i. map (tool_call_info (collect_tool_results msgs Map.empty) (msgs ! i)
                             (assistant_turns_upto msgs i))
                        (msg_tool_calls (msgs ! i))) [0..<length msgs])"
    by (simp add: extract_tool_calls_with_turns_def scan_messages_index)
  have stamp: "assistant_turn_idx (tool_call_info tr msg n tc) = n"
    by (simp add: tool_call_info_def)
  have zero: "assistant_turns_upto msgs 0 = (if msgs \<noteq> [] \<and> is_assistant (msgs ! 0) then 1 else 0)"
    by (cases msgs) (simp_all add: assistant_turns_upto_def)
  have step: "assistant_turns_upto msgs (Suc i) =
       assistant_turns_upto msgs i
       + (if Suc i < length msgs \<and> is_assistant (msgs ! Suc i) then 1 else 0)"
  proof (cases "Suc i < length msgs")
    case True
    then show ?thesis
      by (simp add: assistant_turns_upto_def take_Suc_conv_app_nth [of "Suc i"])
  next
    case False
    then show ?thesis by (simp add: assistant_turns_upto_def)
  qed
  have none: "assistant_turns_upto msgs i = 0"
    if "\<not> (\<exists>m \<in> set (take (Suc i) msgs). is_assistant m)"
    using that by (simp add: assistant_turns_upto_def filter_empty_conv)
  have before: "\<exists>info \<in> set (extract_tool_calls_with_turns msgs).
             call_id info = tc_id tc \<and> name info = tc_name tc \<and> assistant_turn_idx info = 0"
    if "i < length msgs" "\<not> (\<exists>m \<in> set (take (Suc i) msgs). is_assistant m)"
       "tc \<in> set (msg_tool_calls (msgs ! i))" for tc
  proof -
    have "tool_call_info (collect_tool_results msgs Map.empty) (msgs ! i) 0 tc
            \<in> set (extract_tool_calls_with_turns msgs)"
      unfolding formula using that none by force
    then show ?thesis
      by (rule rev_bexI) (simp add: tool_call_info_def)
  qed
  have first: "assistant_turns_upto msgs i = 1"
    if "i < length msgs" "is_assistant (msgs ! i)" "\<not> (\<exists>m \<in> set (take i msgs). is_assistant m)"
    using that by (simp add: assistant_turns_upto_def take_Suc_conv_app_nth filter_empty_conv)
  show ?thesis
    using formula stamp zero step before first by blast
qed

theorem extract_turn_indexing_witness:
  "(1::nat) < length [UserMessage (Some [ToolCall ''u1'' ''ping'' (PDict [])]) None None,
                      AssistantMessage (Some [ToolCall ''c1'' ''get_balance'' (PDict [])]) None None]
   \<and> (0::nat) < length [UserMessage (Some [ToolCall ''u1'' ''ping'' (PDict [])]) None None,
                      AssistantMessage (Some [ToolCall ''c1'' ''get_balance'' (PDict [])]) None None]
   \<and> map assistant_turn_idx (extract_tool_calls_with_turns
        [UserMessage (Some [ToolCall ''u1'' ''ping'' (PDict [])]) None None,
         AssistantMessage (Some [ToolCall ''c1'' ''get_balance'' (PDict [])]) None None]) = [0, 1]
   \<and> assistant_turns_upto
        [UserMessage (Some [ToolCall ''u1'' ''ping'' (PDict [])]) None None,
         AssistantMessage (Some [ToolCall ''c1'' ''get_balance'' (PDict [])]) None None] 1 = 1"
  using extract_turn_indexing [of
      "[UserMessage (Some [ToolCall ''u1'' ''ping'' (PDict [])]) None None,
        AssistantMessage (Some [ToolCall ''c1'' ''get_balance'' (PDict [])]) None None]"
      Map.empty SystemMessage 0 "ToolCall ''u1'' ''ping'' (PDict [])" 0]
    extract_turn_indexing [of
      "[UserMessage (Some [ToolCall ''u1'' ''ping'' (PDict [])]) None None,
        AssistantMessage (Some [ToolCall ''c1'' ''get_balance'' (PDict [])]) None None]"
      Map.empty SystemMessage 0 "ToolCall ''u1'' ''ping'' (PDict [])" 1]
  by (simp add: tool_call_info_def assistant_turns_upto_def)

text \<open>
  C5. For every extracted call, the correctness flag is the negated error flag of the
  correlated result, and true when there is none; the parameter-validity flag is false
  exactly when the correlated result is an error whose content contains, in any case,
  one of the six keywords. Both extractors, the one of \<open>tcrr.py\<close> and the one of
  \<open>agent_metrics.py\<close>, set the flags so.
\<close>

theorem extracted_flags:
  "(\<forall>info \<in> set (extract_tool_calls_with_turns msgs).
      correct info =
        (case correlated_result msgs (call_id info) of None \<Rightarrow> True | Some (e, c) \<Rightarrow> \<not> e)
      \<and> params_valid info = (\<not> reports_param_error (correlated_result msgs (call_id info))))
   \<and> extract_tool_calls_from_messages msgs =
       concat (map (\<lambda>msg. map (\<lambda>tc.
           \<lparr>m_name = tc_name tc, m_params = arguments tc,
            m_cost = safe_float (msg_cost msg) 0, m_latency = 0,
            m_correct =
              (case correlated_result msgs (tc_id tc) of None \<Rightarrow> True | Some (e, c) \<Rightarrow> \<not> e),
            m_params_valid = (\<not> reports_param_error (correlated_result msgs (tc_id tc)))\<rparr>)
         (msg_tool_calls msg)) msgs)"
proof -
  have tcrr: "correct info =
        (case correlated_result msgs (call_id info) of None \<Rightarrow> True | Some (e, c) \<Rightarrow> \<not> e)
      \<and> params_valid info = (\<not> reports_param_error (correlated_result msgs (call_id info)))"
    if "info \<in> set (extract_tool_calls_with_turns msgs)" for info
  proof -
    from that obtain m n tc where
      "info = tool_call_info (collect_tool_results msgs Map.empty) m n tc"
      by (auto simp: extract_tool_calls_with_turns_def scan_messages_index)
    then show ?thesis
      by (simp add: tool_call_info_def call_correct_correlated call_params_valid_correlated)
  qed
  have am: "extract_tool_calls_from_messages msgs =
       concat (map (\<lambda>msg. map (\<lambda>tc.
           \<lparr>m_name = tc_name tc, m_params = arguments tc,
            m_cost = safe_float (msg_cost msg) 0, m_latency = 0,
            m_correct =
              (case correlated_result msgs (tc_id tc) of None \<Rightarrow> True | Some (e, c) \<Rightarrow> \<not> e),
            m_params_valid = (\<not> reports_param_error (correlated_result msgs (tc_id tc)))\<rparr>)
         (msg_tool_calls msg)) msgs)"
  proof -
    have metric: "tool_call_metric (collect_tool_results msgs Map.empty) msg =
        (\<lambda>tc. \<lparr>m_name = tc_name tc, m_params = arguments tc,
            m_cost = safe_float (msg_cost msg) 0, m_latency = 0,
            m_correct =
              (case correlated_result msgs (tc_id tc) of None \<Rightarrow> True | Some (e, c) \<Rightarrow> \<not> e),
            m_params_valid = (\<not> reports_param_error (correlated_result msgs (tc_id tc)))\<rparr>)" for msg
      by (rule ext)
        (simp add: tool_call_metric_def call_correct_correlated call_params_valid_correlated)
    show ?thesis
      by (simp only: extract_tool_calls_from_messages_def scan_messages_am_concat metric)
  qed
  show ?thesis using tcrr am by blast
qed

theorem extracted_flags_witness:
  "map (\<lambda>info. (correct info, params_valid info))
     (extract_tool_calls_with_turns
        [AssistantMessage (Some [ToolCall ''c1'' ''f'' (PDict []), ToolCall ''c2'' ''f'' (PDict []),
                                 ToolCall ''c3'' ''f'' (PDict [])]) None None,
         ToolMessage ''c1'' True (Some ''Error: Invalid Parameter x''),
         ToolMessage ''c2'' True (Some ''boom'')])
     = [(False, False), (False, True), (True, True)]"
proof -
  let ?msgs = "[AssistantMessage (Some [ToolCall ''c1'' ''f'' (PDict []), ToolCall ''c2'' ''f'' (PDict []),
                                 ToolCall ''c3'' ''f'' (PDict [])]) None None,
         ToolMessage ''c1'' True (Some ''Error: Invalid Parameter x''),
         ToolMessage ''c2'' True (Some ''boom'')]"
  have ex: "map call_id (extract_tool_calls_with_turns ?msgs) = [''c1'', ''c2'', ''c3'']"
    by (simp add: extract_tool_calls_with_turns_def tool_call_info_def Let_def)
  have "\<exists>keyword \<in> set param_error_keywords. contains keyword (lower ''Error: Invalid Parameter x'')"
    by code_simp
  then have r1: "reports_param_error (Some (True, Some ''Error: Invalid Parameter x''))"
    by (simp add: reports_param_error_def contains_sublist)
  have "\<not> (\<exists>keyword \<in> set param_error_keywords. contains keyword (lower ''boom''))"
    by code_simp
  then have r2: "\<not> reports_param_error (Some (True, Some ''boom''))"
    by (simp add: reports_param_error_def contains_sublist)
  have r3: "\<not> reports_param_error None"
    by (simp add: reports_param_error_def)
  from ex obtain a b c where abc: "extract_tool_calls_with_turns ?msgs = [a, b, c]"
    "call_id a = ''c1''" "call_id b = ''c2''" "call_id c = ''c3''"
    by (auto simp: map_eq_Cons_conv)
  show ?thesis
    using extracted_flags [of ?msgs] r1 r2 r3 unfolding abc(1)
    by (simp add: abc)
qed

section \<open>Properties of values, sorting and canonicalization\<close>

lemma py_eq_seq_refl: "(\<And>x. x \<in> set xs \<Longrightarrow> py_eq x x) \<Longrightarrow> py_eq_seq xs xs"
  by (induction xs) auto

lemma py_eq_hashable_refl: "hashable x \<Longrightarrow> py_eq x x"
  by (induction x) (auto intro: py_eq_seq_refl)

lemma py_lt_TypeError_aux:
  "py_lt x y = Inl e \<longrightarrow> e = TypeError"
  and "py_lt_seq xs ys = Inl e \<longrightarrow> e = TypeError"
  by (induct x y and xs ys rule: py_lt_py_lt_seq.induct) simp_all

lemma py_lt_TypeError: "py_lt x y = Inl e \<Longrightarrow> e = TypeError"
  by (simp add: py_lt_TypeError_aux(1))

lemma py_insort_TypeError: "py_insort py_lt x ys = Inl e \<Longrightarrow> e = TypeError"
  by (induction ys) (auto split: sum.splits if_splits dest: py_lt_TypeError)

lemma py_sorted_TypeError: "py_sorted xs = Inl e \<Longrightarrow> e = TypeError"
  unfolding py_sorted_def
  by (induction xs arbitrary: e) (auto split: sum.splits dest: py_insort_TypeError)

lemma py_insort_insort_key:
  "(\<And>y. y \<in> set ys \<Longrightarrow> lt y x = Inr (f y < f x)) \<Longrightarrow>
   py_insort lt x ys = Inr (insort_key f x ys)"
  by (induction ys) (auto simp: not_less)

lemma py_sorted_by_sort_key:
  fixes f :: "'a \<Rightarrow> 'k::linorder"
  shows "sorted_wrt (\<lambda>a b. lt b a = Inr (f b < f a)) xs \<Longrightarrow>
         py_sorted_by lt xs = Inr (sort_key f xs)"
proof (induction xs)
  case Nil
  show ?case by simp
next
  case (Cons x xs)
  then have later: "\<And>y. y \<in> set (sort_key f xs) \<Longrightarrow> lt y x = Inr (f y < f x)"
    by simp
  from Cons have "py_sorted_by lt xs = Inr (sort_key f xs)"
    by simp
  then show ?case
    using py_insort_insort_key [of "sort_key f xs" lt x f, OF later] by simp
qed

lemma item_lt_keys:
  "is_str (fst a) \<Longrightarrow> is_str (fst b) \<Longrightarrow> fst a \<noteq> fst b \<Longrightarrow>
   item_lt a b = Inr (item_key a < item_key b)"
  by (cases "fst a"; cases "fst b") (auto simp: item_lt_def item_key_def)

lemma sorted_items_sort_key:
  assumes "distinct (map fst items)" "\<forall>kv \<in> set items. is_str (fst kv)"
  shows "sorted_items items = Inr (sort_key item_key items)"
proof -
  have "sorted_wrt (\<lambda>a b. item_lt b a = Inr (item_key b < item_key a)) items"
    using assms
  proof (induction items)
    case Nil
    show ?case by simp
  next
    case (Cons a items)
    then show ?case
      by (auto intro!: item_lt_keys simp: image_iff)
  qed
  then show ?thesis
    unfolding sorted_items_def by (rule py_sorted_by_sort_key)
qed

lemma for_each_returns:
  "(\<And>x. x \<in> set xs \<Longrightarrow> \<exists>y. f x = Inr y) \<Longrightarrow> \<exists>ys. for_each f xs = Inr ys"
proof (induction xs)
  case Nil
  show ?case by simp
next
  case (Cons x xs)
  then obtain y ys where "f x = Inr y" "for_each f xs = Inr ys"
    by (meson list.set_intros)
  then show ?case by simp
qed

lemma for_each_map: "for_each f (map g xs) = for_each (\<lambda>x. f (g x)) xs"
  by (induction xs) (auto split: sum.splits)


lemma for_each_all:
  assumes "\<And>x. x \<in> set xs \<Longrightarrow> \<exists>y. f x = Inr y \<and> P y"
  shows "\<exists>ys. for_each f xs = Inr ys \<and> (\<forall>y \<in> set ys. P y)"
  using assms
proof (induction xs)
  case Nil
  show ?case by simp
next
  case (Cons x xs)
  then obtain y where y: "f x = Inr y" "P y"
    by (meson list.set_intros(1))
  from Cons obtain ys where ys: "for_each f xs = Inr ys" "\<forall>y \<in> set ys. P y"
    by (meson list.set_intros(2))
  show ?case using y ys by simp
qed

lemma is_str_hashable: "is_str k \<Longrightarrow> hashable k"
  by (cases k) auto

lemma normalized_json_aux:
  "json_value p \<longrightarrow> (\<forall>d. p = PDict d \<longrightarrow> (\<exists>n. normalized_params p = Inr n \<and> hashable n))"
  and "is_str (fst kv) \<and> json_value (snd kv) \<longrightarrow> (\<exists>n. normalized_item kv = Inr n \<and> hashable n)"
  and "json_value item \<longrightarrow> (\<exists>n. normalized_list_item item = Inr n \<and> hashable n)"
proof (induct p and kv and item rule: normalized_params_normalized_item_normalized_list_item.induct)
  case (1 params)
  show ?case
  proof (intro impI allI)
    fix d
    assume json: "json_value (PDict params)"
    then have sorted: "sorted_items params = Inr (sort_key item_key params)"
      by (simp add: sorted_items_sort_key)
    have "\<exists>n. normalized_item x = Inr n \<and> hashable n" if "x \<in> set (sort_key item_key params)" for x
      using 1 [OF sorted that] json that by simp
    then obtain ns where "for_each normalized_item (sort_key item_key params) = Inr ns"
      "\<forall>n \<in> set ns. hashable n"
      using for_each_all [of "sort_key item_key params" normalized_item hashable] by blast
    then show "\<exists>n. normalized_params (PDict params) = Inr n \<and> hashable n"
      by (simp add: sorted)
  qed
next
  case (3 k d)
  then show ?case by (auto simp: is_str_hashable)
next
  case (4 k v)
  show ?case
  proof (intro impI)
    assume a: "is_str (fst (k, PList v)) \<and> json_value (snd (k, PList v))"
    then have "\<exists>n. normalized_list_item x = Inr n \<and> hashable n" if "x \<in> set v" for x
      using 4 that by simp
    then obtain nl where nl: "for_each normalized_list_item v = Inr nl" "\<forall>n \<in> set nl. hashable n"
      using for_each_all [of v normalized_list_item hashable] by blast
    have k: "hashable k" using a by (simp add: is_str_hashable)
    show "\<exists>n. normalized_item (k, PList v) = Inr n \<and> hashable n"
    proof (cases "py_sorted nl")
      case (Inl e)
      then have "e = TypeError" by (rule py_sorted_TypeError)
      with Inl show ?thesis by (simp add: nl k)
    next
      case (Inr sorted_v)
      then have "set sorted_v = set nl"
        by (simp add: py_sorted_def set_py_sorted_by)
      with Inr show ?thesis by (simp add: nl k)
    qed
  qed
next
  case (6 d)
  then show ?case by simp
qed (auto simp: is_str_hashable)

lemma normalized_params_json:
  "json_value (PDict d) \<Longrightarrow> \<exists>n. normalized_params (PDict d) = Inr n \<and> hashable n"
  using normalized_json_aux(1) [of "PDict d"] by simp


lemma normalized_params_hashable:
  "json_value p \<Longrightarrow> normalized_params p = Inr n \<Longrightarrow> hashable n"
  using normalized_json_aux(1) [of p] by (cases p) auto

section \<open>Properties of the redundancy analysis\<close>

lemma hashable_str_identity: "hashable (str_identity call)"
  by (simp add: str_identity_def)

lemma hashable_window_identity: "hashable (window_identity call)"
  by (simp add: window_identity_def hashable_str_identity split: sum.splits)

lemma batch_identity_json:
  "json_value (params call) \<Longrightarrow> hashable (batch_identity call)"
  by (auto simp: batch_identity_def normalized_identity_def hashable_str_identity
      split: sum.splits dest: normalized_params_hashable)

lemma previous_identities_of_step:
  "previous_identities_of (call # calls) s =
     previous_identities_of calls
       (if list_ex (py_eq (window_identity call)) s then s else s @ [window_identity call])"
  by (auto simp: window_identity_def set_add_def set_contains_def hashable_str_identity
      split: sum.splits)

lemma previous_identities_of_total: "\<exists>s'. previous_identities_of calls s = Inr s'"
proof (induction calls arbitrary: s)
  case Nil
  show ?case by simp
next
  case (Cons call calls)
  show ?case
    unfolding previous_identities_of_step by (rule Cons.IH)
qed

lemma window_redundant_in_step:
  "window_redundant_in s (call # calls) =
     (case window_redundant_in s calls of
        Inl e \<Rightarrow> Inl e
      | Inr n \<Rightarrow> Inr ((if list_ex (py_eq (window_identity call)) s then 1 else 0) + n))"
  by (auto simp: window_identity_def set_contains_def hashable_str_identity split: sum.splits)

lemma window_redundant_in_total: "\<exists>n. window_redundant_in s calls = Inr n"
proof (induction calls)
  case Nil
  show ?case by simp
next
  case (Cons call calls)
  then obtain n where "window_redundant_in s calls = Inr n" ..
  then show ?case
    unfolding window_redundant_in_step by simp
qed

lemma call_identities_of_total:
  "\<forall>call \<in> set calls. hashable (batch_identity call) \<Longrightarrow>
   \<exists>d'. call_identities_of calls d = Inr d'"
  by (induction calls arbitrary: d) auto

lemma turn_redundancy_total:
  assumes "\<forall>call \<in> set (calls_of_turn calls_by_turn t). json_value (params call)"
  shows "\<exists>w b. turn_redundancy calls_by_turn window bt t = Inr (w, b)"
proof -
  obtain s where s: "previous_identities_of
      (concat (map (calls_of_turn calls_by_turn) [max 1 (t - window)..t - 1])) [] = Inr s"
    using previous_identities_of_total by blast
  obtain w where w: "window_redundant_in s (calls_of_turn calls_by_turn t) = Inr w"
    using window_redundant_in_total by blast
  obtain d where d: "call_identities_of (calls_of_turn calls_by_turn t) [] = Inr d"
    using call_identities_of_total [of "calls_of_turn calls_by_turn t" "[]"] assms
    by (auto simp: batch_identity_json)
  show ?thesis
    by (simp add: turn_redundancy_def Let_def s w d)
qed

lemma set_group_call:
  "(\<Union>kv \<in> set (group_call call acc). set (snd kv)) = insert call (\<Union>kv \<in> set acc. set (snd kv))"
  by (induction call acc rule: group_call.induct) auto

lemma set_group_by_turn:
  "(\<Union>kv \<in> set (group_by_turn calls acc). set (snd kv)) = set calls \<union> (\<Union>kv \<in> set acc. set (snd kv))"
  by (induction calls arbitrary: acc) (auto simp: set_group_call)

lemma calls_of_turn_subset:
  "set (calls_of_turn (group_by_turn calls []) t) \<subseteq> set calls"
proof
  fix c
  assume "c \<in> set (calls_of_turn (group_by_turn calls []) t)"
  then obtain cs where "map_of (group_by_turn calls []) t = Some cs" "c \<in> set cs"
    by (cases "map_of (group_by_turn calls []) t") (auto simp: calls_of_turn_def)
  then have "c \<in> (\<Union>kv \<in> set (group_by_turn calls []). set (snd kv))"
    by (force dest: map_of_SomeD)
  then show "c \<in> set calls"
    by (simp add: set_group_by_turn)
qed

lemma scan_turns_total:
  assumes "\<And>t. \<forall>call \<in> set (calls_of_turn calls_by_turn t). json_value (params call)"
  shows "\<exists>st. scan_turns calls_by_turn window bt turns st0 = Inr st"
proof (induction turns arbitrary: st0)
  case Nil
  show ?case by (cases st0 rule: prod_cases3) simp
next
  case (Cons t turns)
  obtain w b where "turn_redundancy calls_by_turn window bt t = Inr (w, b)"
    using turn_redundancy_total [OF assms] by blast
  moreover obtain wc bc by_turn where "st0 = (wc, bc, by_turn)"
    using prod_cases3 by blast
  ultimately show ?case
    using Cons.IH by simp
qed

text \<open>
  C2. Whatever result \<open>compute_tcrr_windowed\<close> returns has \<open>total_calls\<close> the number of
  calls, \<open>redundant_calls = window_redundant_calls + batch_redundant_calls\<close>, and
  \<open>redundancy_ratio = redundant_calls / total_calls\<close> when \<open>total_calls > 0\<close> and 0
  otherwise. It returns a result for every list of calls with JSON arguments, whatever
  the window size and the batch threshold, and for the empty list the result is all
  zero. The two rules count independently: of one call in turn 1 and three equal calls
  in turn 2, the three are window-redundant and one of them is batch-redundant as well,
  which gives four redundant calls in turn 2.
\<close>

theorem compute_tcrr_windowed_totals:
  "(\<forall>result. compute_tcrr_windowed tool_calls window bt = Inr result \<longrightarrow>
      total_calls result = int (length tool_calls)
      \<and> redundant_calls result = window_redundant_calls result + batch_redundant_calls result
      \<and> redundancy_ratio result =
          (if total_calls result > 0
           then of_int (redundant_calls result) / of_int (total_calls result) else 0))
   \<and> ((\<forall>call \<in> set tool_calls. json_value (params call)) \<longrightarrow>
        (\<exists>result. compute_tcrr_windowed tool_calls window bt = Inr result))
   \<and> compute_tcrr_windowed [] window bt =
        Inr \<lparr>total_calls = 0, redundant_calls = 0, redundancy_ratio = 0, redundant_by_turn = [],
             window_size = window, window_redundant_calls = 0, batch_redundant_calls = 0\<rparr>
   \<and> compute_tcrr_windowed
       [\<lparr>name = ''get_balance'', params = PDict [(PStr ''account_id'', PStr ''A1'')], turn_idx = 1,
          assistant_turn_idx = 1, call_id = ''c1'', correct = True, params_valid = True\<rparr>,
        \<lparr>name = ''get_balance'', params = PDict [(PStr ''account_id'', PStr ''A1'')], turn_idx = 3,
          assistant_turn_idx = 2, call_id = ''c2'', correct = True, params_valid = True\<rparr>,
        \<lparr>name = ''get_balance'', params = PDict [(PStr ''account_id'', PStr ''A1'')], turn_idx = 3,
          assistant_turn_idx = 2, call_id = ''c3'', correct = True, params_valid = True\<rparr>,
        \<lparr>name = ''get_balance'', params = PDict [(PStr ''account_id'', PStr ''A1'')], turn_idx = 3,
          assistant_turn_idx = 2, call_id = ''c4'', correct = True, params_valid = True\<rparr>] 3 2
     = Inr \<lparr>total_calls = 4, redundant_calls = 4, redundancy_ratio = 1,
          redundant_by_turn = [(1, 0), (2, 4)], window_size = 3,
          window_redundant_calls = 3, batch_redundant_calls = 1\<rparr>"
proof -
  have both: "compute_tcrr_windowed
       [\<lparr>name = ''get_balance'', params = PDict [(PStr ''account_id'', PStr ''A1'')], turn_idx = 1,
          assistant_turn_idx = 1, call_id = ''c1'', correct = True, params_valid = True\<rparr>,
        \<lparr>name = ''get_balance'', params = PDict [(PStr ''account_id'', PStr ''A1'')], turn_idx = 3,
          assistant_turn_idx = 2, call_id = ''c2'', correct = True, params_valid = True\<rparr>,
        \<lparr>name = ''get_balance'', params = PDict [(PStr ''account_id'', PStr ''A1'')], turn_idx = 3,
          assistant_turn_idx = 2, call_id = ''c3'', correct = True, params_valid = True\<rparr>,
        \<lparr>name = ''get_balance'', params = PDict [(PStr ''account_id'', PStr ''A1'')], turn_idx = 3,
          assistant_turn_idx = 2, call_id = ''c4'', correct = True, params_valid = True\<rparr>] 3 2
     = Inr \<lparr>total_calls = 4, redundant_calls = 4, redundancy_ratio = 1,
          redundant_by_turn = [(1, 0), (2, 4)], window_size = 3,
          window_redundant_calls = 3, batch_redundant_calls = 1\<rparr>"
    by code_simp
  have eqs: "total_calls result = int (length tool_calls)
      \<and> redundant_calls result = window_redundant_calls result + batch_redundant_calls result
      \<and> redundancy_ratio result =
          (if total_calls result > 0
           then of_int (redundant_calls result) / of_int (total_calls result) else 0)"
    if "compute_tcrr_windowed tool_calls window bt = Inr result" for result
    using that
    by (auto simp: compute_tcrr_windowed_def Let_def split: if_splits sum.splits prod.splits)
  have total: "\<exists>result. compute_tcrr_windowed tool_calls window bt = Inr result"
    if json: "\<forall>call \<in> set tool_calls. json_value (params call)"
  proof -
    have "\<forall>call \<in> set (calls_of_turn (group_by_turn tool_calls []) t). json_value (params call)" for t
      using json calls_of_turn_subset [of tool_calls t] by blast
    then obtain st where "scan_turns (group_by_turn tool_calls []) window bt
        (sort (map fst (group_by_turn tool_calls []))) (0, 0, []) = Inr st"
      using scan_turns_total by blast
    then show ?thesis
      by (cases st) (simp add: compute_tcrr_windowed_def Let_def)
  qed
  have empty: "compute_tcrr_windowed [] window bt =
        Inr \<lparr>total_calls = 0, redundant_calls = 0, redundancy_ratio = 0, redundant_by_turn = [],
             window_size = window, window_redundant_calls = 0, batch_redundant_calls = 0\<rparr>"
    by (simp add: compute_tcrr_windowed_def)
  show ?thesis using eqs total empty both by blast
qed


theorem compute_tcrr_windowed_totals_witness:
  "json_value (PDict [(PStr ''account_id'', PStr ''A1'')])
   \<and> (\<exists>result. compute_tcrr_windowed
       [\<lparr>name = ''get_balance'', params = PDict [(PStr ''account_id'', PStr ''A1'')], turn_idx = 1,
          assistant_turn_idx = 1, call_id = ''c1'', correct = True, params_valid = True\<rparr>,
        \<lparr>name = ''get_balance'', params = PDict [(PStr ''account_id'', PStr ''A1'')], turn_idx = 3,
          assistant_turn_idx = 2, call_id = ''c2'', correct = True, params_valid = True\<rparr>] 3 2
         = Inr result
       \<and> total_calls result = 2
       \<and> redundant_calls result = window_redundant_calls result + batch_redundant_calls result
       \<and> redundancy_ratio result = of_int (redundant_calls result) / 2)"
  using compute_tcrr_windowed_totals [of
       "[\<lparr>name = ''get_balance'', params = PDict [(PStr ''account_id'', PStr ''A1'')], turn_idx = 1,
          assistant_turn_idx = 1, call_id = ''c1'', correct = True, params_valid = True\<rparr>,
        \<lparr>name = ''get_balance'', params = PDict [(PStr ''account_id'', PStr ''A1'')], turn_idx = 3,
          assistant_turn_idx = 2, call_id = ''c2'', correct = True, params_valid = True\<rparr>]" 3 2]
  by auto

lemma identity_cong:
  "name a = name b \<Longrightarrow> params a = params b \<Longrightarrow>
   window_identity a = window_identity b \<and> batch_identity a = batch_identity b"
  by (auto simp: window_identity_def batch_identity_def normalized_identity_def str_identity_def
      split: sum.splits)

lemma py_eq_window_identity: "py_eq (window_identity c) (window_identity c)"
  by (rule py_eq_hashable_refl) (rule hashable_window_identity)

text \<open>
  C6. Two calls with the same name and the same (JSON) arguments, one in assistant
  turn 1 and one in assistant turn 2, with window size 3 and any batch threshold of at
  least 1 (the default is 2): two calls, one window-redundant, none batch-redundant,
  ratio one half.
\<close>

theorem tcrr_window_example:
  assumes json: "json_value p" and bt: "1 \<le> bt"
  shows "compute_tcrr_windowed
     [\<lparr>name = nm, params = p, turn_idx = t1, assistant_turn_idx = 1, call_id = i1,
        correct = k1, params_valid = v1\<rparr>,
      \<lparr>name = nm, params = p, turn_idx = t2, assistant_turn_idx = 2, call_id = i2,
        correct = k2, params_valid = v2\<rparr>] 3 bt =
     Inr \<lparr>total_calls = 2, redundant_calls = 1, redundancy_ratio = 1 / 2,
          redundant_by_turn = [(1, 0), (2, 1)], window_size = 3,
          window_redundant_calls = 1, batch_redundant_calls = 0\<rparr>"
proof -
  define c1 where "c1 = \<lparr>name = nm, params = p, turn_idx = t1, assistant_turn_idx = 1,
    call_id = i1, correct = k1, params_valid = v1\<rparr>"
  define c2 where "c2 = \<lparr>name = nm, params = p, turn_idx = t2, assistant_turn_idx = 2,
    call_id = i2, correct = k2, params_valid = v2\<rparr>"
  have same: "window_identity c2 = window_identity c1"
    by (rule identity_cong [THEN conjunct1]) (simp_all add: c1_def c2_def)
  have h1: "hashable (batch_identity c1)" and h2: "hashable (batch_identity c2)"
    using json by (simp_all add: batch_identity_json c1_def c2_def)
  have groups: "group_by_turn [c1, c2] [] = [(1, [c1]), (2, [c2])]"
    by (simp add: c1_def c2_def)
  have turns: "sort (map fst [(1::int, [c1]), (2, [c2])]) = [1, 2]"
    by simp
  have first: "turn_redundancy [(1, [c1]), (2, [c2])] 3 bt 1 = Inr (0, 0)"
    using bt
    by (simp add: turn_redundancy_def calls_of_turn_def window_redundant_in_step h1
        excess_calls_def del: window_redundant_in.simps(2) previous_identities_of.simps(2))
  have second: "turn_redundancy [(1, [c1]), (2, [c2])] 3 bt 2 = Inr (1, 0)"
    using bt
    by (simp add: turn_redundancy_def calls_of_turn_def previous_identities_of_step
        window_redundant_in_step same py_eq_window_identity h2 excess_calls_def
        del: window_redundant_in.simps(2) previous_identities_of.simps(2))
  have "compute_tcrr_windowed [c1, c2] 3 bt =
     Inr \<lparr>total_calls = 2, redundant_calls = 1, redundancy_ratio = 1 / 2,
          redundant_by_turn = [(1, 0), (2, 1)], window_size = 3,
          window_redundant_calls = 1, batch_redundant_calls = 0\<rparr>"
    unfolding compute_tcrr_windowed_def groups Let_def turns
    by (simp add: first second)
  then show ?thesis
    by (simp only: c1_def c2_def)
qed

theorem tcrr_window_example_witness:
  "json_value (PDict [(PStr ''account_id'', PStr ''A1'')]) \<and> (1::int) \<le> 2
   \<and> compute_tcrr_windowed
       [\<lparr>name = ''get_balance'', params = PDict [(PStr ''account_id'', PStr ''A1'')], turn_idx = 1,
          assistant_turn_idx = 1, call_id = ''c1'', correct = True, params_valid = True\<rparr>,
        \<lparr>name = ''get_balance'', params = PDict [(PStr ''account_id'', PStr ''A1'')], turn_idx = 3,
          assistant_turn_idx = 2, call_id = ''c2'', correct = True, params_valid = True\<rparr>] 3 2 =
     Inr \<lparr>total_calls = 2, redundant_calls = 1, redundancy_ratio = 1 / 2,
          redundant_by_turn = [(1, 0), (2, 1)], window_size = 3,
          window_redundant_calls = 1, batch_redundant_calls = 0\<rparr>"
  using tcrr_window_example [of "PDict [(PStr ''account_id'', PStr ''A1'')]" 2
      "''get_balance''" 1 "''c1''" True True 3 "''c2''" True True]
  by simp

text \<open>
  C7. Three calls with the same name and the same (JSON) arguments, all in assistant
  turn 1, with batch threshold 2 and any window size: three calls, one batch-redundant
  (the excess over the threshold), none window-redundant, ratio one third.
\<close>

theorem tcrr_batch_example:
  assumes json: "json_value p"
  shows "compute_tcrr_windowed
     [\<lparr>name = nm, params = p, turn_idx = t1, assistant_turn_idx = 1, call_id = i1,
        correct = k1, params_valid = v1\<rparr>,
      \<lparr>name = nm, params = p, turn_idx = t2, assistant_turn_idx = 1, call_id = i2,
        correct = k2, params_valid = v2\<rparr>,
      \<lparr>name = nm, params = p, turn_idx = t3, assistant_turn_idx = 1, call_id = i3,
        correct = k3, params_valid = v3\<rparr>] window 2 =
     Inr \<lparr>total_calls = 3, redundant_calls = 1, redundancy_ratio = 1 / 3,
          redundant_by_turn = [(1, 1)], window_size = window,
          window_redundant_calls = 0, batch_redundant_calls = 1\<rparr>"
proof -
  define c1 where "c1 = \<lparr>name = nm, params = p, turn_idx = t1, assistant_turn_idx = 1,
    call_id = i1, correct = k1, params_valid = v1\<rparr>"
  define c2 where "c2 = \<lparr>name = nm, params = p, turn_idx = t2, assistant_turn_idx = 1,
    call_id = i2, correct = k2, params_valid = v2\<rparr>"
  define c3 where "c3 = \<lparr>name = nm, params = p, turn_idx = t3, assistant_turn_idx = 1,
    call_id = i3, correct = k3, params_valid = v3\<rparr>"
  have same: "batch_identity c2 = batch_identity c1" "batch_identity c3 = batch_identity c1"
    by (rule identity_cong [THEN conjunct2]; simp add: c1_def c2_def c3_def)+
  have h1: "hashable (batch_identity c1)"
    using json by (simp add: batch_identity_json c1_def)
  then have refl: "py_eq (batch_identity c1) (batch_identity c1)"
    by (rule py_eq_hashable_refl)
  have groups: "group_by_turn [c1, c2, c3] [] = [(1, [c1, c2, c3])]"
    by (simp add: c1_def c2_def c3_def)
  have turns: "sort (map fst [(1::int, [c1, c2, c3])]) = [1]"
    by simp
  have range: "[max 1 (1 - window)..0] = []"
    by simp
  have only: "turn_redundancy [(1, [c1, c2, c3])] window 2 1 = Inr (0, 1)"
    by (simp add: turn_redundancy_def calls_of_turn_def range window_redundant_in_step
        same h1 refl excess_calls_def
        del: window_redundant_in.simps(2) previous_identities_of.simps(2))
  have "compute_tcrr_windowed [c1, c2, c3] window 2 =
     Inr \<lparr>total_calls = 3, redundant_calls = 1, redundancy_ratio = 1 / 3,
          redundant_by_turn = [(1, 1)], window_size = window,
          window_redundant_calls = 0, batch_redundant_calls = 1\<rparr>"
    unfolding compute_tcrr_windowed_def groups Let_def turns
    by (simp add: only)
  then show ?thesis
    by (simp only: c1_def c2_def c3_def)
qed


theorem tcrr_batch_example_witness:
  "json_value (PDict [(PStr ''account_id'', PStr ''A1'')])
   \<and> compute_tcrr_windowed
       [\<lparr>name = ''get_balance'', params = PDict [(PStr ''account_id'', PStr ''A1'')], turn_idx = 1,
          assistant_turn_idx = 1, call_id = ''c1'', correct = True, params_valid = True\<rparr>,
        \<lparr>name = ''get_balance'', params = PDict [(PStr ''account_id'', PStr ''A1'')], turn_idx = 1,
          assistant_turn_idx = 1, call_id = ''c2'', correct = True, params_valid = True\<rparr>,
        \<lparr>name = ''get_balance'', params = PDict [(PStr ''account_id'', PStr ''A1'')], turn_idx = 1,
          assistant_turn_idx = 1, call_id = ''c3'', correct = True, params_valid = True\<rparr>] 3 2 =
     Inr \<lparr>total_calls = 3, redundant_calls = 1, redundancy_ratio = 1 / 3,
          redundant_by_turn = [(1, 1)], window_size = 3,
          window_redundant_calls = 0, batch_redundant_calls = 1\<rparr>"
  using tcrr_batch_example [of "PDict [(PStr ''account_id'', PStr ''A1'')]"
      "''get_balance''" 1 "''c1''" True True 1 "''c2''" True True 1 "''c3''" True True 3]
  by simp

section \<open>Properties of the canonicalization\<close>

lemma normalized_json_am_aux:
  "json_value p \<longrightarrow> (\<exists>n. normalized_params_am p = Inr n)"
  and "json_value (snd kv) \<longrightarrow> (\<exists>n. normalized_item_am kv = Inr n)"
proof (induct p and kv rule: normalized_params_am_normalized_item_am.induct)
  case (1 params)
  show ?case
  proof (intro impI)
    assume json: "json_value (PDict params)"
    then have sorted: "sorted_items params = Inr (sort_key item_key params)"
      by (simp add: sorted_items_sort_key)
    have "\<exists>n. normalized_item_am x = Inr n" if "x \<in> set (sort_key item_key params)" for x
      using 1 [OF sorted that] json that by simp
    then obtain ns where "for_each normalized_item_am (sort_key item_key params) = Inr ns"
      using for_each_returns [of "sort_key item_key params" normalized_item_am] by blast
    then show "\<exists>n. normalized_params_am (PDict params) = Inr n"
      by (simp add: sorted)
  qed
next
  case (3 k d)
  then show ?case by auto
next
  case (4 k v)
  show ?case
  proof (cases "py_sorted v")
    case (Inl e)
    then have "e = TypeError" by (rule py_sorted_TypeError)
    with Inl show ?thesis by simp
  next
    case (Inr sorted_v)
    then show ?thesis by simp
  qed
qed simp_all

lemma for_each_image:
  "for_each f xs = Inr ys \<Longrightarrow> x \<in> set xs \<Longrightarrow> \<exists>y \<in> set ys. f x = Inr y"
  by (induction xs arbitrary: ys) (auto split: sum.splits)

text \<open>
  The result for a JSON mapping holds the normalized entry of each of its entries.
\<close>

lemma normalized_entry:
  assumes "json_value (PDict d)" "kv \<in> set d"
  shows "normalized_item kv = Inr n \<Longrightarrow>
         \<exists>ns. normalized_params (PDict d) = Inr (PTuple ns) \<and> n \<in> set ns"
    and "normalized_item_am kv = Inr n \<Longrightarrow>
         \<exists>ns. normalized_params_am (PDict d) = Inr (PTuple ns) \<and> n \<in> set ns"
proof -
  have sorted: "sorted_items d = Inr (sort_key item_key d)"
    using assms(1) by (simp add: sorted_items_sort_key)
  have kv: "kv \<in> set (sort_key item_key d)"
    using assms(2) by simp
  show "\<exists>ns. normalized_params (PDict d) = Inr (PTuple ns) \<and> n \<in> set ns"
    if n: "normalized_item kv = Inr n"
  proof -
    obtain m where "normalized_params (PDict d) = Inr m"
      using normalized_params_json [OF assms(1)] by blast
    then obtain ns where ns: "for_each normalized_item (sort_key item_key d) = Inr ns"
      "normalized_params (PDict d) = Inr (PTuple ns)"
      by (auto simp: sorted split: sum.splits)
    from for_each_image [OF ns(1) kv] n have "n \<in> set ns" by auto
    with ns(2) show ?thesis by blast
  qed
  show "\<exists>ns. normalized_params_am (PDict d) = Inr (PTuple ns) \<and> n \<in> set ns"
    if n: "normalized_item_am kv = Inr n"
  proof -
    obtain m where "normalized_params_am (PDict d) = Inr m"
      using normalized_json_am_aux(1) [of "PDict d"] assms(1) by blast
    then obtain ns where ns: "for_each normalized_item_am (sort_key item_key d) = Inr ns"
      "normalized_params_am (PDict d) = Inr (PTuple ns)"
      by (auto simp: sorted split: sum.splits)
    from for_each_image [OF ns(1) kv] n have "n \<in> set ns" by auto
    with ns(2) show ?thesis by blast
  qed
qed

text \<open>
  The callers of \<open>normalized_params\<close>. When it raises, each of the three loops of
  \<open>compute_tcrr_windowed\<close> goes on with the string identity, which is hashable.
\<close>

lemma raising_call_steps:
  assumes "normalized_params (params call) = Inl e"
  shows "previous_identities_of (call # calls) ids =
           previous_identities_of calls
             (if list_ex (py_eq (str_identity call)) ids then ids else ids @ [str_identity call])"
    and "window_redundant_in ids (call # calls) =
           (case window_redundant_in ids calls of
              Inl x \<Rightarrow> Inl x
            | Inr n \<Rightarrow> Inr ((if list_ex (py_eq (str_identity call)) ids then 1 else 0) + n))"
    and "call_identities_of (call # calls) counts =
           call_identities_of calls (count_identity (str_identity call) counts)"
  using assms
  by (simp_all add: normalized_identity_def batch_identity_def set_add_def set_contains_def
      hashable_str_identity)

lemma batch_identity_raising:
  "normalized_params (params call) = Inl e \<Longrightarrow> hashable (batch_identity call)"
  by (simp add: batch_identity_def normalized_identity_def hashable_str_identity)

lemma turn_redundancy_returns:
  assumes "\<forall>call \<in> set (calls_of_turn calls_by_turn t). hashable (batch_identity call)"
  shows "\<exists>w b. turn_redundancy calls_by_turn window bt t = Inr (w, b)"
proof -
  obtain s where s: "previous_identities_of
      (concat (map (calls_of_turn calls_by_turn) [max 1 (t - window)..t - 1])) [] = Inr s"
    using previous_identities_of_total by blast
  obtain w where w: "window_redundant_in s (calls_of_turn calls_by_turn t) = Inr w"
    using window_redundant_in_total by blast
  obtain d where d: "call_identities_of (calls_of_turn calls_by_turn t) [] = Inr d"
    using call_identities_of_total [OF assms] by blast
  show ?thesis
    by (simp add: turn_redundancy_def Let_def s w d)
qed

lemma scan_turns_returns:
  assumes "\<And>t. \<forall>call \<in> set (calls_of_turn calls_by_turn t). hashable (batch_identity call)"
  shows "\<exists>st. scan_turns calls_by_turn window bt turns st0 = Inr st"
proof (induction turns arbitrary: st0)
  case Nil
  show ?case by (cases st0 rule: prod_cases3) simp
next
  case (Cons t turns)
  obtain w b where "turn_redundancy calls_by_turn window bt t = Inr (w, b)"
    using turn_redundancy_returns [OF assms] by blast
  moreover obtain wc bc by_turn where "st0 = (wc, bc, by_turn)"
    using prod_cases3 by blast
  ultimately show ?case
    using Cons.IH by simp
qed

lemma compute_tcrr_windowed_returns:
  assumes "\<forall>call \<in> set tool_calls. hashable (batch_identity call)"
  shows "\<exists>result. compute_tcrr_windowed tool_calls window bt = Inr result"
proof -
  have "\<forall>call \<in> set (calls_of_turn (group_by_turn tool_calls []) t). hashable (batch_identity call)"
    for t
    using assms calls_of_turn_subset [of tool_calls t] by blast
  then obtain st where "scan_turns (group_by_turn tool_calls []) window bt
      (sort (map fst (group_by_turn tool_calls []))) (0, 0, []) = Inr st"
    using scan_turns_returns by blast
  then show ?thesis
    by (cases st) (simp add: compute_tcrr_windowed_def Let_def)
qed

text \<open>
  The simple redundancy count of \<open>agent_metrics.py\<close> never raises.
\<close>

lemma seen_or_add_hashable:
  "hashable identity \<Longrightarrow>
   seen_or_add seen dup identity =
     Inr (if list_ex (py_eq identity) seen then (seen, dup + 1) else (seen @ [identity], dup))"
  by (simp add: seen_or_add_def set_contains_def set_add_def)

lemma hashable_str_identity_am: "hashable (str_identity_am call)"
  by (simp add: str_identity_am_def)

lemma count_duplicates_returns: "\<exists>n. count_duplicates calls seen dup = Inr n"
proof (induction calls arbitrary: seen dup)
  case Nil
  show ?case by simp
next
  case (Cons call calls)
  show ?case
    using Cons.IH
    by (auto simp: seen_or_add_hashable hashable_str_identity_am split: sum.splits)
qed

text \<open>
  C9. The claim reads: the canonicalization function never raises, on any input, also
  not on a non-mapping input or on mixed-type keys in a nested sub-mapping. On the code,
  \<open>normalized_params\<close> of \<open>tcrr.py\<close> raises \<open>AttributeError\<close> on \<open>None\<close>, and both
  variants raise \<open>TypeError\<close> on \<open>{"filter": {1: "a", "b": "c"}}\<close>, where \<open>sorted\<close>
  compares the keys \<open>1\<close> and \<open>"b"\<close> outside every \<open>try\<close>.
\<close>

theorem normalized_params_raises:
  "normalized_params PNone = Inl AttributeError
   \<and> normalized_params
        (PDict [(PStr ''filter'', PDict [(PInt 1, PStr ''a''), (PStr ''b'', PStr ''c'')])])
       = Inl TypeError
   \<and> normalized_params_am
        (PDict [(PStr ''filter'', PDict [(PInt 1, PStr ''a''), (PStr ''b'', PStr ''c'')])])
       = Inl TypeError"
  by (simp add: sorted_items_def item_lt_def)

text \<open>
  C9, as the code has it. On every JSON mapping both variants of \<open>normalized_params\<close>
  return a value, the one of \<open>tcrr.py\<close> a hashable one, and the one of
  \<open>agent_metrics.py\<close> renders every input that is no mapping with \<open>str\<close>. The
  fallback inside the function is the one for a list value: when \<open>sorted\<close> raises
  \<open>TypeError\<close> on the list (in \<open>tcrr.py\<close>: on its normalized elements), the entry of
  the result is the key with the tuple of the \<open>str\<close> of the list's elements, in the
  order of the list. What \<open>normalized_params\<close> raises is caught by its callers:
  each of the three loops of \<open>compute_tcrr_windowed\<close> goes on with the identity
  \<open>(name, str(params))\<close>, so that \<open>compute_tcrr_windowed\<close> returns a result for
  every list of calls whose arguments are JSON values or make \<open>normalized_params\<close>
  raise; and the redundancy count of \<open>agent_metrics.py\<close> goes on with the same
  identity and returns for every list of calls.
\<close>

theorem normalized_params_returns_on_json:
  "(json_value a \<longrightarrow> (\<exists>n. normalized_params_am a = Inr n))
   \<and> (json_value (PDict d) \<longrightarrow> (\<exists>n. normalized_params (PDict d) = Inr n \<and> hashable n))
   \<and> ((\<forall>d'. a \<noteq> PDict d') \<longrightarrow> normalized_params_am a = Inr (PStr (py_str a)))
   \<and> (json_value (PDict d) \<and> (k, PList v) \<in> set d \<and> py_sorted v = Inl e \<longrightarrow>
        (\<exists>ns. normalized_params_am (PDict d) = Inr (PTuple ns)
           \<and> PTuple [k, PTuple (map (\<lambda>item. PStr (py_str item)) v)] \<in> set ns))
   \<and> (json_value (PDict d) \<and> (k, PList v) \<in> set d
        \<and> for_each normalized_list_item v = Inr nl \<and> py_sorted nl = Inl e \<longrightarrow>
        (\<exists>ns. normalized_params (PDict d) = Inr (PTuple ns)
           \<and> PTuple [k, PTuple (map (\<lambda>item. PStr (py_str item)) v)] \<in> set ns))
   \<and> (normalized_params (params call) = Inl e' \<longrightarrow>
        previous_identities_of (call # calls) ids =
          previous_identities_of calls
            (if list_ex (py_eq (PTuple [PStr (name call), PStr (py_str (params call))])) ids
             then ids else ids @ [PTuple [PStr (name call), PStr (py_str (params call))]])
        \<and> window_redundant_in ids (call # calls) =
          (case window_redundant_in ids calls of
             Inl x \<Rightarrow> Inl x
           | Inr n \<Rightarrow>
               Inr ((if list_ex (py_eq (PTuple [PStr (name call), PStr (py_str (params call))])) ids
                     then 1 else 0) + n))
        \<and> call_identities_of (call # calls) counts =
          call_identities_of calls
            (count_identity (PTuple [PStr (name call), PStr (py_str (params call))]) counts))
   \<and> ((\<forall>c \<in> set tool_calls.
          json_value (params c) \<or> (\<exists>x. normalized_params (params c) = Inl x)) \<longrightarrow>
        (\<exists>result. compute_tcrr_windowed tool_calls window bt = Inr result))
   \<and> (normalized_params_am (m_params mc) = Inl e'' \<longrightarrow>
        count_duplicates (mc # mcs) seen dup =
          (if list_ex (py_eq (PTuple [PStr (m_name mc), PStr (py_str (m_params mc))])) seen
           then count_duplicates mcs seen (dup + 1)
           else count_duplicates mcs
                  (seen @ [PTuple [PStr (m_name mc), PStr (py_str (m_params mc))]]) dup))
   \<and> (\<exists>n. count_duplicates mcs seen dup = Inr n)"
proof -
  have am: "\<exists>n. normalized_params_am a = Inr n" if "json_value a"
    using that normalized_json_am_aux(1) by blast
  have tcrr: "\<exists>n. normalized_params (PDict d) = Inr n \<and> hashable n" if "json_value (PDict d)"
    using that by (rule normalized_params_json)
  have other: "normalized_params_am a = Inr (PStr (py_str a))" if "\<forall>d'. a \<noteq> PDict d'"
    using that by (cases a) simp_all
  have list_am: "\<exists>ns. normalized_params_am (PDict d) = Inr (PTuple ns)
           \<and> PTuple [k, PTuple (map (\<lambda>item. PStr (py_str item)) v)] \<in> set ns"
    if "json_value (PDict d)" "(k, PList v) \<in> set d" "py_sorted v = Inl e"
  proof -
    have "e = TypeError" using that(3) by (rule py_sorted_TypeError)
    then have "normalized_item_am (k, PList v) =
        Inr (PTuple [k, PTuple (map (\<lambda>item. PStr (py_str item)) v)])"
      using that(3) by simp
    then show ?thesis
      by (rule normalized_entry(2) [OF that(1,2)])
  qed
  have list_tcrr: "\<exists>ns. normalized_params (PDict d) = Inr (PTuple ns)
           \<and> PTuple [k, PTuple (map (\<lambda>item. PStr (py_str item)) v)] \<in> set ns"
    if "json_value (PDict d)" "(k, PList v) \<in> set d"
      "for_each normalized_list_item v = Inr nl" "py_sorted nl = Inl e"
  proof -
    have "e = TypeError" using that(4) by (rule py_sorted_TypeError)
    then have "normalized_item (k, PList v) =
        Inr (PTuple [k, PTuple (map (\<lambda>item. PStr (py_str item)) v)])"
      using that(3,4) by simp
    then show ?thesis
      by (rule normalized_entry(1) [OF that(1,2)])
  qed
  have callers: "previous_identities_of (call # calls) ids =
          previous_identities_of calls
            (if list_ex (py_eq (PTuple [PStr (name call), PStr (py_str (params call))])) ids
             then ids else ids @ [PTuple [PStr (name call), PStr (py_str (params call))]])
        \<and> window_redundant_in ids (call # calls) =
          (case window_redundant_in ids calls of
             Inl x \<Rightarrow> Inl x
           | Inr n \<Rightarrow>
               Inr ((if list_ex (py_eq (PTuple [PStr (name call), PStr (py_str (params call))])) ids
                     then 1 else 0) + n))
        \<and> call_identities_of (call # calls) counts =
          call_identities_of calls
            (count_identity (PTuple [PStr (name call), PStr (py_str (params call))]) counts)"
    if "normalized_params (params call) = Inl e'"
    using raising_call_steps [OF that] by (simp only: str_identity_def)
  have total: "\<exists>result. compute_tcrr_windowed tool_calls window bt = Inr result"
    if "\<forall>c \<in> set tool_calls.
          json_value (params c) \<or> (\<exists>x. normalized_params (params c) = Inl x)"
  proof (rule compute_tcrr_windowed_returns)
    show "\<forall>call \<in> set tool_calls. hashable (batch_identity call)"
      using that by (auto intro: batch_identity_json batch_identity_raising)
  qed
  have count: "count_duplicates (mc # mcs) seen dup =
          (if list_ex (py_eq (PTuple [PStr (m_name mc), PStr (py_str (m_params mc))])) seen
           then count_duplicates mcs seen (dup + 1)
           else count_duplicates mcs
                  (seen @ [PTuple [PStr (m_name mc), PStr (py_str (m_params mc))]]) dup)"
    if "normalized_params_am (m_params mc) = Inl e''"
    using that seen_or_add_hashable [OF hashable_str_identity_am, of seen dup mc]
    by (simp add: normalized_identity_am_def str_identity_am_def)
  show ?thesis
    using am tcrr other list_am list_tcrr callers total count count_duplicates_returns
    by blast
qed

theorem normalized_params_returns_on_json_witness:
  "json_value (PDict [(PStr ''ids'', PList [PInt 2, PStr ''x'', PNone])])
   \<and> py_sorted [PInt 2, PStr ''x'', PNone] = Inl TypeError
   \<and> (\<exists>n. normalized_params (PDict [(PStr ''ids'', PList [PInt 2, PStr ''x'', PNone])]) = Inr n
          \<and> hashable n)
   \<and> (\<exists>ns. normalized_params_am (PDict [(PStr ''ids'', PList [PInt 2, PStr ''x'', PNone])]) =
            Inr (PTuple ns)
          \<and> PTuple [PStr ''ids'', PTuple [PStr ''2'', PStr ''x'', PStr ''None'']] \<in> set ns)
   \<and> normalized_params PNone = Inl AttributeError
   \<and> previous_identities_of
        [\<lparr>name = ''f'', params = PNone, turn_idx = 0, assistant_turn_idx = 1,
           call_id = ''c'', correct = True, params_valid = True\<rparr>] [] =
        Inr [PTuple [PStr ''f'', PStr ''None'']]
   \<and> (\<exists>result. compute_tcrr_windowed
          [\<lparr>name = ''f'', params = PNone, turn_idx = 0, assistant_turn_idx = 1,
             call_id = ''c'', correct = True, params_valid = True\<rparr>] 3 2 = Inr result)"
proof -
  let ?d = "[(PStr ''ids'', PList [PInt 2, PStr ''x'', PNone])]"
  let ?c = "\<lparr>name = ''f'', params = PNone, turn_idx = 0, assistant_turn_idx = 1,
             call_id = ''c'', correct = True, params_valid = True\<rparr>"
  note th = normalized_params_returns_on_json [of "PDict ?d" ?d "PStr ''ids''"
      "[PInt 2, PStr ''x'', PNone]" TypeError "[]" ?c AttributeError "[]" "[]" "[]" "[?c]" 3 2]
  have json: "json_value (PDict ?d)"
    by simp
  have mem: "(PStr ''ids'', PList [PInt 2, PStr ''x'', PNone]) \<in> set ?d"
    by simp
  have unsortable: "py_sorted [PInt 2, PStr ''x'', PNone] = Inl TypeError"
    by (simp add: py_sorted_def)
  have raises: "normalized_params PNone = Inl AttributeError"
    by simp
  have calls: "\<forall>c \<in> set [?c]. json_value (params c) \<or> (\<exists>x. normalized_params (params c) = Inl x)"
    by simp
  have strs: "map (\<lambda>item. PStr (py_str item)) [PInt 2, PStr ''x'', PNone] =
      [PStr ''2'', PStr ''x'', PStr ''None'']"
    by code_simp
  have c3: "\<exists>n. normalized_params (PDict ?d) = Inr n \<and> hashable n"
    using th json by blast
  have c4: "\<exists>ns. normalized_params_am (PDict ?d) = Inr (PTuple ns)
      \<and> PTuple [PStr ''ids'', PTuple (map (\<lambda>item. PStr (py_str item)) [PInt 2, PStr ''x'', PNone])]
          \<in> set ns"
    using th json mem unsortable by blast
  have "normalized_params (params ?c) = Inl AttributeError"
    by simp
  then have "previous_identities_of [?c] [] =
      previous_identities_of []
        (if list_ex (py_eq (PTuple [PStr (name ?c), PStr (py_str (params ?c))])) []
         then [] else [] @ [PTuple [PStr (name ?c), PStr (py_str (params ?c))]])"
    using th by blast
  also have "\<dots> = Inr [PTuple [PStr ''f'', PStr ''None'']]"
    by simp
  finally have c6: "previous_identities_of [?c] [] = Inr [PTuple [PStr ''f'', PStr ''None'']]" .
  have c7: "\<exists>result. compute_tcrr_windowed [?c] 3 2 = Inr result"
    using th calls by blast
  show ?thesis
    using json unsortable raises c3 c4 [unfolded strs] c6 c7 by blast
qed

lemma insort_key_map_same_key:
  "f (r x) = f x \<Longrightarrow> (\<And>y. y \<in> set ys \<Longrightarrow> f (r y) = f y) \<Longrightarrow>
   insort_key f (r x) (map r ys) = map r (insort_key f x ys)"
  by (induction ys) auto

lemma sort_key_map_same_key:
  "(\<And>x. x \<in> set xs \<Longrightarrow> f (r x) = f x) \<Longrightarrow> sort_key f (map r xs) = map r (sort_key f xs)"
proof (induction xs)
  case Nil
  show ?case by simp
next
  case (Cons x xs)
  then show ?case
    using insort_key_map_same_key [of f r x "sort_key f xs"] by simp
qed

lemma sort_key_perm:
  fixes f :: "'a \<Rightarrow> 'k::linorder"
  assumes "mset xs = mset ys" "inj_on f (set xs)"
  shows "sort_key f xs = sort_key f ys"
  by (rule sort_key_inj_key_eq) (simp_all add: assms)

lemma item_key_inj:
  assumes "distinct (map fst items)" "\<forall>kv \<in> set items. is_str (fst kv)"
  shows "inj_on item_key (set items)"
proof (rule inj_onI)
  fix a b
  assume a: "a \<in> set items" and b: "b \<in> set items" and eq: "item_key a = item_key b"
  from a b assms(2) have "is_str (fst a)" "is_str (fst b)" by auto
  with eq have "fst a = fst b"
    by (cases "fst a"; cases "fst b") (simp_all add: item_key_def)
  moreover have "inj_on fst (set items)"
    using assms(1) by (simp add: distinct_map)
  ultimately show "a = b"
    using a b by (auto dest: inj_onD)
qed

lemma normalized_params_dict:
  assumes "distinct (map fst items)" "\<forall>kv \<in> set items. is_str (fst kv)"
  shows "normalized_params (PDict items) =
     (case for_each normalized_item (sort_key item_key items) of
        Inl e \<Rightarrow> Inl e | Inr ns \<Rightarrow> Inr (PTuple ns))"
    and "normalized_params_am (PDict items) =
     (case for_each normalized_item_am (sort_key item_key items) of
        Inl e \<Rightarrow> Inl e | Inr ns \<Rightarrow> Inr (PTuple ns))"
  using assms by (simp_all add: sorted_items_sort_key)

lemma keys_reordered:
  assumes "mset items' = mset items" "distinct (map fst items)" "\<forall>kv \<in> set items. is_str (fst kv)"
  shows "normalized_params (PDict items') = normalized_params (PDict items)"
    and "normalized_params_am (PDict items') = normalized_params_am (PDict items)"
proof -
  have set: "set items' = set items"
    using assms(1) by (rule mset_eq_setD)
  have "mset (map fst items') = mset (map fst items)"
    using assms(1) by simp
  then have d': "distinct (map fst items')"
    using assms(2) by (metis mset_eq_imp_distinct_iff)
  have s': "\<forall>kv \<in> set items'. is_str (fst kv)"
    using assms(3) set by simp
  have "sort_key item_key items' = sort_key item_key items"
    using assms(1) item_key_inj [OF d' s'] by (rule sort_key_perm)
  then show "normalized_params (PDict items') = normalized_params (PDict items)"
    and "normalized_params_am (PDict items') = normalized_params_am (PDict items)"
    by (simp_all only: normalized_params_dict [OF d' s'] normalized_params_dict [OF assms(2,3)])
qed

lemma entry_replaced:
  assumes d: "distinct (map fst (xs @ (k, v) # ys))"
    and s: "\<forall>kv \<in> set (xs @ (k, v) # ys). is_str (fst kv)"
    and eq: "f (k, v') = f (k, v)"
  shows "for_each f (sort_key item_key (xs @ (k, v') # ys)) =
         for_each f (sort_key item_key (xs @ (k, v) # ys))"
proof -
  define r where "r = (\<lambda>kv :: pyval \<times> pyval. if fst kv = k then (k, v') else kv)"
  have fresh: "fst kv \<noteq> k" if "kv \<in> set xs \<union> set ys" for kv
    using d that by (auto simp: image_iff)
  have "map r (xs @ (k, v) # ys) = xs @ (k, v') # ys"
    using fresh by (simp add: r_def map_idI)
  moreover have "item_key (r kv) = item_key kv" for kv
    by (simp add: r_def item_key_def)
  ultimately have sorted: "sort_key item_key (xs @ (k, v') # ys) =
      map r (sort_key item_key (xs @ (k, v) # ys))"
    using sort_key_map_same_key [of "xs @ (k, v) # ys" item_key r] by simp
  have "f (r kv) = f kv" if "kv \<in> set (sort_key item_key (xs @ (k, v) # ys))" for kv
  proof (cases "fst kv = k")
    case True
    from that have "kv \<in> set xs \<union> set ys \<or> kv = (k, v)" by auto
    with True fresh have "kv = (k, v)" by blast
    then show ?thesis by (simp add: r_def eq)
  next
    case False
    then show ?thesis by (simp add: r_def)
  qed
  then have "for_each (\<lambda>x. f (r x)) (sort_key item_key (xs @ (k, v) # ys)) =
      for_each f (sort_key item_key (xs @ (k, v) # ys))"
    by (intro for_each_cong refl)
  then show ?thesis
    by (simp only: sorted for_each_map)
qed

lemma value_replaced:
  assumes d: "distinct (map fst (xs @ (k, v) # ys))"
    and s: "\<forall>kv \<in> set (xs @ (k, v) # ys). is_str (fst kv)"
  shows "normalized_item (k, v') = normalized_item (k, v) \<Longrightarrow>
         normalized_params (PDict (xs @ (k, v') # ys)) = normalized_params (PDict (xs @ (k, v) # ys))"
    and "normalized_item_am (k, v') = normalized_item_am (k, v) \<Longrightarrow>
         normalized_params_am (PDict (xs @ (k, v') # ys)) =
         normalized_params_am (PDict (xs @ (k, v) # ys))"
proof -
  have d': "distinct (map fst (xs @ (k, v') # ys))" using d by simp
  have s': "\<forall>kv \<in> set (xs @ (k, v') # ys). is_str (fst kv)" using s by simp
  show "normalized_item (k, v') = normalized_item (k, v) \<Longrightarrow>
         normalized_params (PDict (xs @ (k, v') # ys)) = normalized_params (PDict (xs @ (k, v) # ys))"
    using entry_replaced [OF d s, of normalized_item v']
    by (simp only: normalized_params_dict(1) [OF d s] normalized_params_dict(1) [OF d' s'])
  show "normalized_item_am (k, v') = normalized_item_am (k, v) \<Longrightarrow>
         normalized_params_am (PDict (xs @ (k, v') # ys)) =
         normalized_params_am (PDict (xs @ (k, v) # ys))"
    using entry_replaced [OF d s, of normalized_item_am v']
    by (simp only: normalized_params_dict(2) [OF d s] normalized_params_dict(2) [OF d' s'])
qed


lemma sorted_wrt_all_pairs:
  "(\<And>x y. x \<in> set xs \<Longrightarrow> y \<in> set xs \<Longrightarrow> P x y) \<Longrightarrow> sorted_wrt P xs"
  by (induction xs) auto

lemma py_sorted_ints:
  assumes "\<forall>x \<in> set l. is_int x"
  shows "py_sorted l = Inr (sort_key int_of l)" and "inj_on int_of (set l)"
proof -
  have lt: "py_lt y x = Inr (int_of y < int_of x)" if "x \<in> set l" "y \<in> set l" for x y
  proof -
    from that assms have "is_int x" "is_int y" by auto
    then obtain i j where "x = PInt i" "y = PInt j"
      by (auto elim!: is_int.elims)
    then show ?thesis by simp
  qed
  show "py_sorted l = Inr (sort_key int_of l)"
    unfolding py_sorted_def
    by (rule py_sorted_by_sort_key) (rule sorted_wrt_all_pairs, rule lt)
  show "inj_on int_of (set l)"
  proof (rule inj_onI)
    fix x y
    assume xy: "x \<in> set l" "y \<in> set l" "int_of x = int_of y"
    with assms have "is_int x" "is_int y" by auto
    then obtain i j where "x = PInt i" "y = PInt j"
      by (auto elim!: is_int.elims)
    with xy show "x = y" by simp
  qed
qed

lemma py_sorted_strs:
  assumes "\<forall>x \<in> set l. is_str x"
  shows "py_sorted l = Inr (sort_key str_of l)" and "inj_on str_of (set l)"
proof -
  have lt: "py_lt y x = Inr (str_of y < str_of x)" if "x \<in> set l" "y \<in> set l" for x y
  proof -
    from that assms have "is_str x" "is_str y" by auto
    then obtain i j where "x = PStr i" "y = PStr j"
      by (auto elim!: is_str.elims)
    then show ?thesis by simp
  qed
  show "py_sorted l = Inr (sort_key str_of l)"
    unfolding py_sorted_def
    by (rule py_sorted_by_sort_key) (rule sorted_wrt_all_pairs, rule lt)
  show "inj_on str_of (set l)"
  proof (rule inj_onI)
    fix x y
    assume xy: "x \<in> set l" "y \<in> set l" "str_of x = str_of y"
    with assms have "is_str x" "is_str y" by auto
    then obtain i j where "x = PStr i" "y = PStr j"
      by (auto elim!: is_str.elims)
    with xy show "x = y" by simp
  qed
qed

lemma py_sorted_uniform:
  assumes "uniform_scalars l" "mset l' = mset l"
  shows "\<exists>s. py_sorted l = Inr s \<and> py_sorted l' = Inr s"
proof -
  have set: "set l' = set l" using assms(2) by (rule mset_eq_setD)
  from assms(1) consider "\<forall>x \<in> set l. is_int x" | "\<forall>x \<in> set l. is_str x"
    unfolding uniform_scalars_def by blast
  then show ?thesis
  proof cases
    case 1
    then have "\<forall>x \<in> set l'. is_int x" using set by simp
    then have "py_sorted l' = Inr (sort_key int_of l')" "inj_on int_of (set l')"
      by (rule py_sorted_ints)+
    moreover have "py_sorted l = Inr (sort_key int_of l)"
      using 1 by (rule py_sorted_ints)
    ultimately show ?thesis
      using sort_key_perm [OF assms(2), of int_of] by simp
  next
    case 2
    then have "\<forall>x \<in> set l'. is_str x" using set by simp
    then have "py_sorted l' = Inr (sort_key str_of l')" "inj_on str_of (set l')"
      by (rule py_sorted_strs)+
    moreover have "py_sorted l = Inr (sort_key str_of l)"
      using 2 by (rule py_sorted_strs)
    ultimately show ?thesis
      using sort_key_perm [OF assms(2), of str_of] by simp
  qed
qed

lemma for_each_scalars:
  "uniform_scalars l \<Longrightarrow> for_each normalized_list_item l = Inr l"
proof -
  assume "uniform_scalars l"
  then have "\<forall>x \<in> set l. normalized_list_item x = Inr x"
    unfolding uniform_scalars_def
    by (auto elim!: is_int.elims is_str.elims)
  then show ?thesis
    by (induction l) auto
qed

lemma list_value_reordered:
  assumes "uniform_scalars l" "mset l' = mset l"
  shows "normalized_item (k, PList l') = normalized_item (k, PList l)"
    and "normalized_item_am (k, PList l') = normalized_item_am (k, PList l)"
proof -
  have u': "uniform_scalars l'"
    using assms mset_eq_setD [OF assms(2)] by (simp add: uniform_scalars_def)
  obtain s where s: "py_sorted l = Inr s" "py_sorted l' = Inr s"
    using py_sorted_uniform [OF assms] by blast
  show "normalized_item (k, PList l') = normalized_item (k, PList l)"
    by (simp add: for_each_scalars assms(1) u' s)
  show "normalized_item_am (k, PList l') = normalized_item_am (k, PList l)"
    by (simp add: s)
qed

lemma reordered_shape: "reordered a b \<Longrightarrow> a = b \<or> (\<exists>d d'. a = PDict d \<and> b = PDict d')"
  by (induction rule: reordered.induct) auto

lemma reordered_invariant:
  "reordered a b \<Longrightarrow> json_value a \<Longrightarrow>
   json_value b \<and> normalized_params b = normalized_params a
   \<and> normalized_params_am b = normalized_params_am a"
proof (induction rule: reordered.induct)
  case (same a)
  then show ?case by simp
next
  case (keys items' items)
  have set: "set items' = set items"
    using keys(1) by (rule mset_eq_setD)
  have "mset (map fst items') = mset (map fst items)"
    using keys(1) by simp
  then have "distinct (map fst items') = distinct (map fst items)"
    by (rule mset_eq_imp_distinct_iff)
  then have "json_value (PDict items')"
    using keys(2) set by simp
  then show ?case
    using keys keys_reordered [of items' items] by simp
next
  case (nested v v' xs k ys)
  then have d: "distinct (map fst (xs @ (k, v) # ys))"
    and s: "\<forall>kv \<in> set (xs @ (k, v) # ys). is_str (fst kv)"
    and jv: "json_value v"
    by auto
  have ih: "json_value v'" "normalized_params v' = normalized_params v"
    "normalized_params_am v' = normalized_params_am v"
    using nested.IH [OF jv] by simp_all
  have item: "normalized_item (k, v') = normalized_item (k, v)
      \<and> normalized_item_am (k, v') = normalized_item_am (k, v)"
    using reordered_shape [OF nested.hyps] ih by auto
  have "json_value (PDict (xs @ (k, v') # ys))"
    using nested.prems ih(1) by auto
  then show ?case
    using value_replaced [OF d s, of v'] item by simp
next
  case (list_value l' l xs k ys)
  then have d: "distinct (map fst (xs @ (k, PList l) # ys))"
    and s: "\<forall>kv \<in> set (xs @ (k, PList l) # ys). is_str (fst kv)"
    by auto
  have "\<forall>x \<in> set l. json_value x"
    using list_value.prems by simp
  then have "json_value (PDict (xs @ (k, PList l') # ys))"
    using list_value.prems mset_eq_setD [OF list_value.hyps(1)] by auto
  then show ?case
    using value_replaced [OF d s, of "PList l'"]
      list_value_reordered [OF list_value.hyps(2,1), of k]
    by simp
next
  case (chain a b c)
  then show ?case by simp
qed


lemma json_keyed: "json_value v \<Longrightarrow> keyed v"
  by (induction v) auto

lemma is_str_keyed: "is_str k \<Longrightarrow> keyed k"
  by (cases k) auto

lemma py_eq_str_keys: "is_str k \<Longrightarrow> is_str k' \<Longrightarrow> py_eq k k' = (k = k')"
  by (auto elim!: is_str.elims)

lemma py_dict_has_member:
  assumes "distinct (map fst b)" "\<forall>kv \<in> set b. is_str (fst kv)" "(k, v) \<in> set b" "py_eq v v"
  shows "py_dict_has k v b"
  using assms
proof (induction b)
  case Nil
  then show ?case by simp
next
  case (Cons kv b)
  obtain k' v' where kv: "kv = (k', v')" by (cases kv)
  have strs: "is_str k" "is_str k'"
    using Cons.prems(2,3) kv by auto
  show ?case
  proof (cases "k = k'")
    case True
    with Cons.prems(1,3) kv have "v = v'"
      by (auto simp: image_iff)
    with True Cons.prems(4) kv strs show ?thesis
      by (simp add: py_eq_str_keys)
  next
    case False
    with Cons kv strs show ?thesis
      by (simp add: py_eq_str_keys)
  qed
qed

lemma py_dict_sub_subset:
  assumes "distinct (map fst b)" "\<forall>kv \<in> set b. is_str (fst kv)"
    "set a \<subseteq> set b" "\<forall>kv \<in> set a. py_eq (snd kv) (snd kv)"
  shows "py_dict_sub a b"
  using assms(3,4)
proof (induction a)
  case Nil
  show ?case by simp
next
  case (Cons kv a)
  obtain k v where kv: "kv = (k, v)" by (cases kv)
  have "py_dict_has k v b"
    using Cons.prems kv by (intro py_dict_has_member assms(1,2)) auto
  then show ?case
    using Cons kv by simp
qed

lemma py_eq_keyed_refl: "keyed v \<Longrightarrow> py_eq v v"
proof (induction v)
  case (PDict kvs)
  have "py_eq (snd kv) (snd kv)" if "kv \<in> set kvs" for kv
    using PDict that by (cases kv) (auto simp: snds.simps)
  then show ?case
    using PDict.prems by (auto intro!: py_dict_sub_subset)
qed (auto intro: py_eq_seq_refl)

lemma for_each_member:
  "for_each f xs = Inr ys \<Longrightarrow> y \<in> set ys \<Longrightarrow> \<exists>x \<in> set xs. f x = Inr y"
  by (induction xs arbitrary: ys) (auto split: sum.splits)

lemma normalized_am_keyed_aux:
  "json_value p \<longrightarrow> (\<forall>n. normalized_params_am p = Inr n \<longrightarrow> keyed n)"
  and "is_str (fst kv) \<and> json_value (snd kv) \<longrightarrow> (\<forall>n. normalized_item_am kv = Inr n \<longrightarrow> keyed n)"
proof (induct p and kv rule: normalized_params_am_normalized_item_am.induct)
  case (1 params)
  show ?case
  proof (intro impI allI)
    fix n
    assume json: "json_value (PDict params)" and n: "normalized_params_am (PDict params) = Inr n"
    then have sorted: "sorted_items params = Inr (sort_key item_key params)"
      by (simp add: sorted_items_sort_key)
    from n obtain ns where ns: "for_each normalized_item_am (sort_key item_key params) = Inr ns"
      "n = PTuple ns"
      by (auto simp: sorted split: sum.splits)
    have "keyed y" if "y \<in> set ns" for y
    proof -
      from ns(1) that obtain x where "x \<in> set (sort_key item_key params)"
        "normalized_item_am x = Inr y"
        by (blast dest: for_each_member)
      then show ?thesis
        using 1 [OF sorted] json by auto
    qed
    then show "keyed n" by (simp add: ns(2))
  qed
next
  case (3 k d)
  then show ?case by (auto simp: is_str_keyed split: sum.splits)
next
  case (4 k v)
  show ?case
  proof (intro impI allI)
    fix n
    assume a: "is_str (fst (k, PList v)) \<and> json_value (snd (k, PList v))"
      and n: "normalized_item_am (k, PList v) = Inr n"
    show "keyed n"
    proof (cases "py_sorted v")
      case (Inl e)
      then have "e = TypeError" by (rule py_sorted_TypeError)
      with Inl n a show ?thesis by (auto simp: is_str_keyed)
    next
      case (Inr sorted_v)
      then have "set sorted_v = set v"
        by (simp add: py_sorted_def set_py_sorted_by)
      with Inr n a show ?thesis by (auto simp: json_keyed is_str_keyed)
    qed
  qed
qed (auto simp: json_keyed is_str_keyed)

lemma normalized_params_am_keyed:
  "json_value p \<Longrightarrow> normalized_params_am p = Inr n \<Longrightarrow> keyed n"
  using normalized_am_keyed_aux(1) by blast





end
